theory Spec2Isabelle
  imports Main "HOL-Library.Word" "HOL-Library.AList" "HOL-Library.Multiset"
begin

section \<open>Machine integers of Network.cpp\<close>

text \<open>
  The byte counters are \<^verbatim>\<open>size_t\<close> fields; they are modelled as 64-bit words, so
  \<open>+\<close> wraps as the unsigned addition of the source does.  Lengths of vectors are
  natural numbers.  The functions \<^verbatim>\<open>recv\<close>, \<^verbatim>\<open>send\<close> and \<^verbatim>\<open>available\<close> return
  \<^verbatim>\<open>int\<close> through a \<^verbatim>\<open>static_cast<int>\<close> of a \<^verbatim>\<open>size_t\<close>; the cast keeps
  the low 32 bits and reads them as two's complement.
\<close>

type_synonym size_t = "64 word"

definition INT_MAX :: nat where
  "INT_MAX = 2147483647"

definition static_cast_int :: "nat \<Rightarrow> int" where
  "static_cast_int n = (int n + 2 ^ 31) mod 2 ^ 32 - 2 ^ 31"

definition SOCKET_ERROR :: int where
  "SOCKET_ERROR = - 1"

section \<open>SocketConnection\<close>

datatype ConnectionState = INITIAL | CONNECTING | CONNECTED | CLOSED

text \<open>
  The model follows the POSIX branch of the \<^verbatim>\<open>#ifdef _WIN32\<close> alternatives.  Of the
  \<^verbatim>\<open>errno\<close> values the code tells apart \<^verbatim>\<open>EINTR\<close>, \<^verbatim>\<open>EAGAIN\<close>, \<^verbatim>\<open>EWOULDBLOCK\<close> and
  \<^verbatim>\<open>EPIPE\<close>; \<open>ECONNRESET\<close> and \<open>EOTHER\<close> stand for the rest.
\<close>

datatype errno = EINTR | EAGAIN | EWOULDBLOCK | EPIPE | ECONNRESET | EOTHER

text \<open>
  The fields of \<^verbatim>\<open>class SocketConnection\<close>.  \<open>descriptorOpen\<close> says whether the
  OS socket behind \<^verbatim>\<open>descriptor\<close> has not been passed to \<^verbatim>\<open>closesocket\<close> yet;
  \<open>thread\<close> says whether the \<^verbatim>\<open>unique_ptr<std::thread>\<close> holds a thread object.
  The peer address and the 16384-byte staging buffer of the receive loop carry no
  state between operations and are left out.
\<close>

record SocketConnection =
  descriptorOpen :: bool
  totalUpload :: size_t
  totalDownload :: size_t
  state :: ConnectionState
  thread :: bool
  readBatch :: "char list"

definition MAX_INBUF :: nat where
  "MAX_INBUF = 2 ^ 20"

definition buffer_size :: nat where
  "buffer_size = 16384"

text \<open>The constructor: state \<^verbatim>\<open>INITIAL\<close>, counters zero, no thread, empty queue.\<close>

definition newConnection :: SocketConnection where
  "newConnection =
     \<lparr>descriptorOpen = True, totalUpload = 0, totalDownload = 0,
      state = INITIAL, thread = False, readBatch = []\<rparr>"

definition startClient :: "SocketConnection \<Rightarrow> SocketConnection" where
  "startClient c = c\<lparr>state := CONNECTED, thread := True\<rparr>"

text \<open>
  \<^verbatim>\<open>connect(callback)\<close> only creates the thread; the thread runs \<^verbatim>\<open>connectSocket\<close>,
  which writes \<^verbatim>\<open>CONNECTING\<close>, blocks in the OS \<^verbatim>\<open>connect\<close> call (its result is
  the parameter \<open>res\<close>) and then writes \<^verbatim>\<open>CONNECTED\<close> or \<^verbatim>\<open>CLOSED\<close>.
\<close>

definition connect :: "SocketConnection \<Rightarrow> SocketConnection" where
  "connect c = c\<lparr>thread := True\<rparr>"

definition connectSocket_begin :: "SocketConnection \<Rightarrow> SocketConnection" where
  "connectSocket_begin c = c\<lparr>state := CONNECTING\<rparr>"

definition connectSocket_finish :: "SocketConnection \<Rightarrow> int \<Rightarrow> SocketConnection" where
  "connectSocket_finish c res =
     (if res < 0 then c\<lparr>descriptorOpen := False, state := CLOSED\<rparr>
      else c\<lparr>state := CONNECTED\<rparr>)"

definition connectSocket :: "SocketConnection \<Rightarrow> int \<Rightarrow> SocketConnection" where
  "connectSocket c res = connectSocket_finish (connectSocket_begin c) res"

subsection \<open>The receive loop\<close>

text \<open>
  What one call of the OS \<^verbatim>\<open>recv\<close> yields is an input of the model: either the
  bytes that arrived (the call returns at most \<open>len\<close> of them; none means the peer
  closed) or a failure with its \<^verbatim>\<open>errno\<close>.
\<close>

datatype recv_outcome = RecvData "char list" | RecvError errno

definition recvsocket :: "recv_outcome \<Rightarrow> nat \<Rightarrow> int \<times> char list \<times> errno option" where
  "recvsocket r len =
     (case r of
        RecvData bs \<Rightarrow> (int (length (take len bs)), take len bs, None)
      | RecvError e \<Rightarrow> (- 1, [], Some e))"

datatype loop_ctl = Continue | Break

text \<open>One pass through the body of \<^verbatim>\<open>while (state == CONNECTED)\<close> in \<^verbatim>\<open>listenLoop\<close>.\<close>

definition listenBody :: "SocketConnection \<Rightarrow> recv_outcome \<Rightarrow> loop_ctl \<times> SocketConnection" where
  "listenBody c r =
     (case recvsocket r buffer_size of (sz, bytes, err) \<Rightarrow>
        if sz = 0 then (Break, c)
        else if sz < 0 then
          (if err = Some EINTR then (Continue, c)
           else if err = Some EAGAIN \<or> err = Some EWOULDBLOCK then (Continue, c)
           else (Break, c))
        else if length (readBatch c) + nat sz > MAX_INBUF then (Break, c)
        else (Continue, c\<lparr>readBatch := readBatch c @ bytes,
                            totalDownload := totalDownload c + of_int sz\<rparr>))"

text \<open>The code after the loop: \<^verbatim>\<open>state = CLOSED; shutdown; closesocket\<close>.\<close>

definition listenExit :: "SocketConnection \<Rightarrow> SocketConnection" where
  "listenExit c = c\<lparr>state := CLOSED, descriptorOpen := False\<rparr>"

text \<open>
  The whole loop over the outcomes of its successive \<^verbatim>\<open>recv\<close> calls.  \<open>None\<close>: the
  outcomes are used up and the loop has not left, the thread is still blocked in
  \<^verbatim>\<open>recv\<close>.
\<close>

fun listenLoop :: "SocketConnection \<Rightarrow> recv_outcome list \<Rightarrow> SocketConnection option" where
  "listenLoop c [] = (if state c = CONNECTED then None else Some (listenExit c))"
| "listenLoop c (r # rs) =
     (if state c = CONNECTED then
        (case listenBody c r of
           (Break, c') \<Rightarrow> Some (listenExit c')
         | (Continue, c') \<Rightarrow> listenLoop c' rs)
      else Some (listenExit c))"

subsection \<open>The operations of the interface\<close>

text \<open>
  \<^verbatim>\<open>recv(outBuffer, length)\<close> returns the \<^verbatim>\<open>int\<close>, the bytes copied into
  \<^verbatim>\<open>outBuffer\<close> and the connection.  When the cast to \<^verbatim>\<open>int\<close> is negative the
  \<^verbatim>\<open>memcpy\<close> and the \<^verbatim>\<open>erase\<close> are undefined behaviour: \<open>None\<close>.
\<close>

definition recv :: "SocketConnection \<Rightarrow> nat \<Rightarrow> (int \<times> char list \<times> SocketConnection) option" where
  "recv c len =
     (if state c \<noteq> CONNECTED \<and> readBatch c = [] then Some (- 1, [], c)
      else
        let sz = static_cast_int (min (length (readBatch c)) len) in
        if sz < 0 then None
        else Some (sz, take (nat sz) (readBatch c),
                   c\<lparr>readBatch := drop (nat sz) (readBatch c)\<rparr>))"

definition available :: "SocketConnection \<Rightarrow> int" where
  "available c = static_cast_int (length (readBatch c))"

definition getState :: "SocketConnection \<Rightarrow> ConnectionState" where
  "getState c = state c"

text \<open>
  \<^verbatim>\<open>close(discardAll)\<close>: the discard comes first, then the return when already
  \<^verbatim>\<open>CLOSED\<close>; otherwise the state is written, the socket released, the thread
  joined and the thread object reset.
\<close>

definition close :: "SocketConnection \<Rightarrow> bool \<Rightarrow> SocketConnection" where
  "close c discardAll =
     (let c1 = (if discardAll then c\<lparr>readBatch := []\<rparr> else c) in
      if state c1 = CLOSED then c1
      else c1\<lparr>state := CLOSED, descriptorOpen := False, thread := False\<rparr>)"

text \<open>
  What one call of the OS \<^verbatim>\<open>send\<close> yields is an input of the model: the transport
  takes up to \<open>n\<close> bytes (the call then returns the smaller of \<open>n\<close> and the length
  offered, \<open>0\<close> when it takes none), or it fails with an \<^verbatim>\<open>errno\<close>.
\<close>

datatype send_outcome = SendAccepts nat | SendError errno

definition sendsocket :: "send_outcome \<Rightarrow> nat \<Rightarrow> int \<times> errno option" where
  "sendsocket r len =
     (case r of
        SendAccepts n \<Rightarrow> (int (min n len), None)
      | SendError e \<Rightarrow> (SOCKET_ERROR, Some e))"

text \<open>
  The loop \<^verbatim>\<open>while (total < length)\<close> of \<^verbatim>\<open>send\<close> and the two statements after it.
  \<open>None\<close>: the outcomes are used up and the loop has not left.  The bytes of
  \<^verbatim>\<open>inBuffer\<close> go to the transport and nowhere else, so only \<open>len\<close> is modelled.
\<close>

fun sendLoop :: "SocketConnection \<Rightarrow> nat \<Rightarrow> nat \<Rightarrow> send_outcome list \<Rightarrow> (int \<times> SocketConnection) option" where
  "sendLoop c len tot [] =
     (if tot < len then None
      else Some (static_cast_int tot, c\<lparr>totalUpload := totalUpload c + of_nat tot\<rparr>))"
| "sendLoop c len tot (r # rs) =
     (if tot < len then
        (let toSend = (if len - tot > INT_MAX then INT_MAX else len - tot) in
         case sendsocket r toSend of (sent, err) \<Rightarrow>
           if sent = SOCKET_ERROR then
             (if err = Some EINTR then sendLoop c len tot rs
              else if err = Some EAGAIN \<or> err = Some EWOULDBLOCK then sendLoop c len tot rs
              else Some (- 1, close c False))
           else if sent = 0 then Some (- 1, close c False)
           else sendLoop c len (tot + nat sent) rs)
      else Some (static_cast_int tot, c\<lparr>totalUpload := totalUpload c + of_nat tot\<rparr>))"

definition send :: "SocketConnection \<Rightarrow> nat \<Rightarrow> send_outcome list \<Rightarrow> (int \<times> SocketConnection) option" where
  "send c len rs = (if state c \<noteq> CONNECTED then Some (- 1, c) else sendLoop c len 0 rs)"

text \<open>
  The receive thread runs beside the callers of the interface.  What it does between
  two statements of another thread is a number of passes through the body of its loop,
  with the code after the loop when a pass breaks; it does nothing once it is out of
  the loop.  The outcomes of the \<^verbatim>\<open>recv\<close> calls of these passes are an input.
\<close>

definition receive_step :: "SocketConnection \<Rightarrow> recv_outcome \<Rightarrow> SocketConnection" where
  "receive_step c r =
     (if state c = CONNECTED then
        (case listenBody c r of
           (Break, c') \<Rightarrow> listenExit c'
         | (Continue, c') \<Rightarrow> c')
      else c)"

definition receive_thread :: "SocketConnection \<Rightarrow> recv_outcome list \<Rightarrow> SocketConnection" where
  "receive_thread c rs = foldl receive_step c rs"

text \<open>
  \<^verbatim>\<open>pullUpload\<close> and \<^verbatim>\<open>pullDownload\<close> are two statements each,
  \<^verbatim>\<open>size_t size = totalUpload; totalUpload = 0;\<close>, and take no lock.  Between the two
  statements of \<^verbatim>\<open>pullUpload\<close> a \<^verbatim>\<open>send\<close> of another thread may run its
  \<^verbatim>\<open>totalUpload += total\<close> (\<open>sent\<close> is that total, \<open>0\<close> when there is none); between
  those of \<^verbatim>\<open>pullDownload\<close> the receive thread may run (\<open>rs\<close>, empty when it does not).
\<close>

definition pullUpload :: "SocketConnection \<Rightarrow> nat \<Rightarrow> size_t \<times> SocketConnection" where
  "pullUpload c sent =
     (let sz = totalUpload c;
          c1 = c\<lparr>totalUpload := totalUpload c + of_nat sent\<rparr>
      in (sz, c1\<lparr>totalUpload := 0\<rparr>))"

definition pullDownload :: "SocketConnection \<Rightarrow> recv_outcome list \<Rightarrow> size_t \<times> SocketConnection" where
  "pullDownload c rs =
     (let sz = totalDownload c;
          c1 = receive_thread c rs
      in (sz, c1\<lparr>totalDownload := 0\<rparr>))"

subsection \<open>The connections a program can hold\<close>

text \<open>
  A connection is made by the constructor and started either by \<^verbatim>\<open>startClient\<close>
  (accepted socket) or by \<^verbatim>\<open>connect\<close> (outbound); \<^verbatim>\<open>Network::connect\<close> registers
  the outbound one before its thread has run.  From then on its thread and the callers
  act on it.  The two stores of \<^verbatim>\<open>connectSocket\<close> are unconditional, so they apply to
  whatever the callers have made of the connection meanwhile.
\<close>

inductive_set reachable :: "SocketConnection set" where
  created: "newConnection \<in> reachable"
| accepted: "startClient newConnection \<in> reachable"
| outbound: "connect newConnection \<in> reachable"
| handshake_begin: "c \<in> reachable \<Longrightarrow> connectSocket_begin c \<in> reachable"
| handshake_end: "c \<in> reachable \<Longrightarrow> connectSocket_finish c res \<in> reachable"
| listen_continue:
    "c \<in> reachable \<Longrightarrow> state c = CONNECTED \<Longrightarrow> listenBody c r = (Continue, c')
       \<Longrightarrow> c' \<in> reachable"
| listen_break:
    "c \<in> reachable \<Longrightarrow> state c = CONNECTED \<Longrightarrow> listenBody c r = (Break, c')
       \<Longrightarrow> listenExit c' \<in> reachable"
| listen_leave: "c \<in> reachable \<Longrightarrow> state c \<noteq> CONNECTED \<Longrightarrow> listenExit c \<in> reachable"
| recv_op: "c \<in> reachable \<Longrightarrow> recv c len = Some (n, out, c') \<Longrightarrow> c' \<in> reachable"
| send_op: "c \<in> reachable \<Longrightarrow> send c len rs = Some (n, c') \<Longrightarrow> c' \<in> reachable"
| close_op: "c \<in> reachable \<Longrightarrow> close c discardAll \<in> reachable"
| pullUpload_op: "c \<in> reachable \<Longrightarrow> snd (pullUpload c sent) \<in> reachable"
| pullDownload_op: "c \<in> reachable \<Longrightarrow> snd (pullDownload c rs) \<in> reachable"

section \<open>SocketTcpSServer\<close>

text \<open>
  The fields of \<^verbatim>\<open>class SocketTcpSServer\<close>; the field \<^verbatim>\<open>open\<close> is \<open>isOpen\<close> here.
  The listener keeps the ids of the connections it accepted and reaches them through
  the registry of the facade, an association list from id to connection.
\<close>

record SocketTcpSServer =
  serverDescriptorOpen :: bool
  clients :: "nat list"
  isOpen :: bool
  serverThread :: bool
  port :: int

text \<open>One pass of \<^verbatim>\<open>for (u64id_t clientid : clients)\<close>: look the id up, close what is found.\<close>

definition close_client :: "(nat \<times> SocketConnection) list \<Rightarrow> nat \<Rightarrow> (nat \<times> SocketConnection) list" where
  "close_client conns clientid =
     (case map_of conns clientid of
        None \<Rightarrow> conns
      | Some client \<Rightarrow> AList.update clientid (close client False) conns)"

text \<open>
  \<^verbatim>\<open>closeSocket()\<close>.  The accept thread calls \<^verbatim>\<open>close()\<close> itself when \<^verbatim>\<open>listen\<close> or
  \<^verbatim>\<open>accept\<close> fails; \<open>by_accept_thread\<close> says that the caller is that thread.  Then
  \<^verbatim>\<open>thread->join()\<close> is a thread joining itself: it throws \<^verbatim>\<open>std::system_error\<close>, the
  exception leaves the thread function and the process is terminated.  \<open>None\<close>: the
  call does not return.
\<close>

definition closeSocket ::
  "SocketTcpSServer \<Rightarrow> bool \<Rightarrow> (nat \<times> SocketConnection) list
     \<Rightarrow> (SocketTcpSServer \<times> (nat \<times> SocketConnection) list) option" where
  "closeSocket srv by_accept_thread conns =
     (if \<not> isOpen srv then Some (srv, conns)
      else if serverThread srv \<and> by_accept_thread then None
      else Some (srv\<lparr>isOpen := False, clients := [], serverDescriptorOpen := False,
                      serverThread := False\<rparr>,
                 foldl close_client conns (clients srv)))"

section \<open>CurlRequests\<close>

definition HTTP_OK :: int where
  "HTTP_OK = 200"

definition HTTP_BAD_GATEWAY :: int where
  "HTTP_BAD_GATEWAY = 502"

datatype RequestType = GET | POST

text \<open>
  A callback is a \<^verbatim>\<open>std::function\<close> object; the model knows it by a number and
  \<open>None\<close> is the null function.  Calling one appends an event to the log \<open>invoked\<close>;
  what the called code does, also to this object, is outside the model.
\<close>

type_synonym callback = nat

record Request =
  reqType :: RequestType
  reqUrl :: string
  reqOnResponse :: "callback option"
  reqOnReject :: "callback option"
  maxSize :: int
  followLocation :: bool
  reqData :: string

datatype callback_event = OnResponse callback "char list" | OnReject callback int

text \<open>
  The fields of \<^verbatim>\<open>class CurlRequests\<close> (its counters are \<open>httpTotalUpload\<close> and
  \<open>httpTotalDownload\<close> here) and the log of callback invocations, oldest first.  The
  two cURL handles are external: what the options set on them do is not modelled.
\<close>

record CurlRequests =
  httpTotalUpload :: size_t
  httpTotalDownload :: size_t
  onResponse :: "callback option"
  onReject :: "callback option"
  buffer :: "char list"
  url :: string
  requests :: "Request list"
  invoked :: "callback_event list"

definition newCurlRequests :: CurlRequests where
  "newCurlRequests =
     \<lparr>httpTotalUpload = 0, httpTotalDownload = 0, onResponse = None, onReject = None,
      buffer = [], url = [], requests = [], invoked = []\<rparr>"

definition write_callback :: "char list \<Rightarrow> char list \<Rightarrow> char list" where
  "write_callback ptr userdata = userdata @ ptr"

text \<open>
  What one call of \<^verbatim>\<open>curl_multi_perform\<close> does is an input of the model: the chunks
  it hands to \<^verbatim>\<open>write_callback\<close>, in order, and whether it returns \<^verbatim>\<open>CURLM_OK\<close>.
\<close>

record perform_outcome =
  chunks :: "char list list"
  curlm_ok :: bool

definition curl_multi_perform :: "perform_outcome \<Rightarrow> char list \<Rightarrow> char list \<times> bool" where
  "curl_multi_perform p buf = (foldl (\<lambda>b ptr. write_callback ptr b) buf (chunks p), curlm_ok p)"

text \<open>\<^verbatim>\<open>if (onReject) onReject(code)\<close> and \<^verbatim>\<open>if (onResponse) onResponse(std::move(buffer))\<close>.\<close>

definition call_onReject :: "callback option \<Rightarrow> int \<Rightarrow> callback_event list" where
  "call_onReject f code = (case f of None \<Rightarrow> [] | Some g \<Rightarrow> [OnReject g code])"

definition call_onResponse :: "callback option \<Rightarrow> char list \<Rightarrow> callback_event list" where
  "call_onResponse f body = (case f of None \<Rightarrow> [] | Some g \<Rightarrow> [OnResponse g body])"

definition processRequest :: "CurlRequests \<Rightarrow> Request \<Rightarrow> perform_outcome \<Rightarrow> CurlRequests" where
  "processRequest s request p =
     (if url s \<noteq> [] then s\<lparr>requests := requests s @ [request]\<rparr>
      else
        let s1 = s\<lparr>onResponse := reqOnResponse request, onReject := reqOnReject request,
                   url := reqUrl request, buffer := []\<rparr> in
        case curl_multi_perform p (buffer s1) of (buf, ok) \<Rightarrow>
          let s2 = s1\<lparr>buffer := buf\<rparr> in
          if \<not> ok then
            s2\<lparr>invoked := invoked s2 @ call_onReject (onReject s2) HTTP_BAD_GATEWAY, url := []\<rparr>
          else s2)"

definition get ::
  "CurlRequests \<Rightarrow> string \<Rightarrow> callback option \<Rightarrow> callback option \<Rightarrow> int \<Rightarrow> perform_outcome
     \<Rightarrow> CurlRequests" where
  "get s u onResp onRej maxSz p =
     processRequest s
       \<lparr>reqType = GET, reqUrl = u, reqOnResponse = onResp, reqOnReject = onRej,
        maxSize = maxSz, followLocation = False, reqData = []\<rparr> p"

definition post ::
  "CurlRequests \<Rightarrow> string \<Rightarrow> string \<Rightarrow> callback option \<Rightarrow> callback option \<Rightarrow> int
     \<Rightarrow> perform_outcome \<Rightarrow> CurlRequests" where
  "post s u d onResp onRej maxSz p =
     processRequest s
       \<lparr>reqType = POST, reqUrl = u, reqOnResponse = onResp, reqOnReject = onRej,
        maxSize = maxSz, followLocation = False, reqData = d\<rparr> p"

text \<open>
  What \<^verbatim>\<open>curl_multi_info_read\<close> returns is an input too: no message, or a message
  with its kind, the response code \<^verbatim>\<open>curl_easy_getinfo\<close> gives for it (\<open>0\<close> when no
  HTTP response was received) and the two sizes (\<open>None\<close> when that \<^verbatim>\<open>getinfo\<close> fails).
\<close>

datatype CURLMSG = CURLMSG_DONE | CURLMSG_NONE

record CURLMsg =
  msg :: CURLMSG
  response_code :: int
  request_size :: "int option"
  header_size :: "int option"

text \<open>
  The body of \<^verbatim>\<open>if ((msg = curl_multi_info_read(...)) != nullptr)\<close> in \<^verbatim>\<open>update\<close>.
  The kind of the message only decides whether the handle is taken out of the multi
  handle, which is external.  \<^verbatim>\<open>std::move(buffer)\<close> hands the vector to the callback
  and leaves the field empty.
\<close>

definition message_read :: "CurlRequests \<Rightarrow> CURLMsg \<Rightarrow> CurlRequests" where
  "message_read s m =
     (let response = response_code m in
      if response = HTTP_OK then
        let s1 = (case request_size m of
                    None \<Rightarrow> s
                  | Some sz \<Rightarrow> s\<lparr>httpTotalUpload := httpTotalUpload s + of_int sz\<rparr>);
            s2 = (case header_size m of
                    None \<Rightarrow> s1
                  | Some sz \<Rightarrow> s1\<lparr>httpTotalDownload := httpTotalDownload s1 + of_int sz\<rparr>);
            s3 = s2\<lparr>httpTotalDownload := httpTotalDownload s2 + of_nat (length (buffer s2))\<rparr>;
            s4 = (case onResponse s3 of
                    None \<Rightarrow> s3
                  | Some g \<Rightarrow> s3\<lparr>invoked := invoked s3 @ [OnResponse g (buffer s3)],
                                   buffer := []\<rparr>)
        in s4\<lparr>url := []\<rparr>
      else s\<lparr>invoked := invoked s @ call_onReject (onReject s) response, url := []\<rparr>)"

text \<open>
  The inputs of one \<^verbatim>\<open>update()\<close>: its own \<^verbatim>\<open>curl_multi_perform\<close>, the message read
  and the \<^verbatim>\<open>curl_multi_perform\<close> of the \<^verbatim>\<open>processRequest\<close> it may call at its end.
\<close>

record update_input =
  perform :: perform_outcome
  info_read :: "CURLMsg option"
  next_perform :: perform_outcome

definition update :: "CurlRequests \<Rightarrow> update_input \<Rightarrow> CurlRequests" where
  "update s i =
     (case curl_multi_perform (perform i) (buffer s) of (buf, ok) \<Rightarrow>
        let s0 = s\<lparr>buffer := buf\<rparr> in
        if \<not> ok then
          s0\<lparr>invoked := invoked s0 @ call_onReject (onReject s0) HTTP_BAD_GATEWAY, url := []\<rparr>
        else
          let s1 = (case info_read i of None \<Rightarrow> s0 | Some m \<Rightarrow> message_read s0 m) in
          if url s1 = [] \<and> requests s1 \<noteq> [] then
            processRequest (s1\<lparr>requests := tl (requests s1)\<rparr>) (hd (requests s1)) (next_perform i)
          else s1)"

subsection \<open>Sequences of calls\<close>

datatype submission =
  Get string "callback option" "callback option" int
| Post string string "callback option" "callback option" int

definition request_of :: "submission \<Rightarrow> Request" where
  "request_of sub =
     (case sub of
        Get u onResp onRej maxSz \<Rightarrow>
          \<lparr>reqType = GET, reqUrl = u, reqOnResponse = onResp, reqOnReject = onRej,
           maxSize = maxSz, followLocation = False, reqData = []\<rparr>
      | Post u d onResp onRej maxSz \<Rightarrow>
          \<lparr>reqType = POST, reqUrl = u, reqOnResponse = onResp, reqOnReject = onRej,
           maxSize = maxSz, followLocation = False, reqData = d\<rparr>)"

definition submit :: "CurlRequests \<Rightarrow> submission \<times> perform_outcome \<Rightarrow> CurlRequests" where
  "submit s sp =
     (case sp of
        (Get u onResp onRej maxSz, p) \<Rightarrow> get s u onResp onRej maxSz p
      | (Post u d onResp onRej maxSz, p) \<Rightarrow> post s u d onResp onRej maxSz p)"

definition submit_all :: "CurlRequests \<Rightarrow> (submission \<times> perform_outcome) list \<Rightarrow> CurlRequests" where
  "submit_all s sps = foldl submit s sps"

definition updates :: "CurlRequests \<Rightarrow> update_input list \<Rightarrow> CurlRequests" where
  "updates s ins = foldl update s ins"

text \<open>
  Any interleaving of submissions and \<^verbatim>\<open>update()\<close> calls; whether every submission
  of it is made while a request is active (the test of the code: \<^verbatim>\<open>url\<close> is not
  empty); the requests it submits, in order.
\<close>

datatype call = Submit submission perform_outcome | Update update_input

fun calls :: "CurlRequests \<Rightarrow> call list \<Rightarrow> CurlRequests" where
  "calls s [] = s"
| "calls s (Submit sub p # cs) = calls (submit s (sub, p)) cs"
| "calls s (Update i # cs) = calls (update s i) cs"

fun submitted_while_active :: "CurlRequests \<Rightarrow> call list \<Rightarrow> bool" where
  "submitted_while_active s [] = True"
| "submitted_while_active s (Submit sub p # cs) =
     (url s \<noteq> [] \<and> submitted_while_active (submit s (sub, p)) cs)"
| "submitted_while_active s (Update i # cs) = submitted_while_active (update s i) cs"

fun submitted :: "call list \<Rightarrow> Request list" where
  "submitted [] = []"
| "submitted (Submit sub p # cs) = request_of sub # submitted cs"
| "submitted (Update i # cs) = submitted cs"

text \<open>The callbacks of a request, and whose callback an event calls.\<close>

definition callbacks :: "Request \<Rightarrow> callback option \<times> callback option" where
  "callbacks r = (reqOnResponse r, reqOnReject r)"

definition belongs :: "callback_event \<Rightarrow> callback option \<times> callback option \<Rightarrow> bool" where
  "belongs e cbs =
     (case e of OnResponse g body \<Rightarrow> fst cbs = Some g | OnReject g code \<Rightarrow> snd cbs = Some g)"

text \<open>
  \<open>in_order es rs\<close>: the events \<open>es\<close> fall into consecutive blocks, one block for
  each of some of the requests \<open>rs\<close>, the blocks in the order of \<open>rs\<close>, and every
  event of a block calls a callback of its request.
\<close>

fun in_order :: "callback_event list \<Rightarrow> (callback option \<times> callback option) list \<Rightarrow> bool" where
  "in_order [] rs = True"
| "in_order (e # es) [] = False"
| "in_order (e # es) (r # rs) = ((belongs e r \<and> in_order es (r # rs)) \<or> in_order (e # es) rs)"

text \<open>
  \<open>at_most_once es rs\<close>: every event of \<open>es\<close> can be given to one of the requests \<open>rs\<close>
  (listed as often as they occur) whose callback it calls, so that no request gets two
  events.
\<close>

fun at_most_once :: "callback_event list \<Rightarrow> (callback option \<times> callback option) list \<Rightarrow> bool" where
  "at_most_once [] rs = True"
| "at_most_once (e # es) rs = list_ex (\<lambda>r. belongs e r \<and> at_most_once es (remove1 r rs)) rs"

section \<open>Network\<close>

text \<open>
  The fields of \<^verbatim>\<open>class Network\<close> that Network.cpp uses (its \<^verbatim>\<open>requests\<close> is
  \<open>httpRequests\<close> here, its counters \<open>netTotalUpload\<close> and \<open>netTotalDownload\<close>).  The
  two registries are association lists in the order of iteration.
\<close>

record Network =
  httpRequests :: CurlRequests
  connections :: "(nat \<times> SocketConnection) list"
  servers :: "(nat \<times> SocketTcpSServer) list"
  nextConnection :: nat
  nextServer :: nat
  netTotalUpload :: size_t
  netTotalDownload :: size_t

definition getConnection :: "Network \<Rightarrow> nat \<Rightarrow> SocketConnection option" where
  "getConnection n cid = map_of (connections n) cid"

text \<open>
  What the other threads do to one connection while \<^verbatim>\<open>Network::update\<close> handles it:
  inside its \<^verbatim>\<open>pullDownload\<close>, inside its \<^verbatim>\<open>pullUpload\<close>, between the pulls and the
  call of \<^verbatim>\<open>available()\<close>, and between the calls of \<^verbatim>\<open>available()\<close> and
  \<^verbatim>\<open>getState()\<close>, which read the connection at two moments.  (What they do before
  the first statement or after the last is part of the state the call finds or
  leaves.)
\<close>

record race =
  in_pullDownload :: "recv_outcome list"
  in_pullUpload :: nat
  before_test :: "recv_outcome list"
  in_test :: "recv_outcome list"

definition undisturbed :: race where
  "undisturbed = \<lparr>in_pullDownload = [], in_pullUpload = 0, before_test = [], in_test = []\<rparr>"

text \<open>
  The body of the first loop of \<^verbatim>\<open>Network::update\<close> for one connection: what the two
  pulls return, whether the entry is erased, and the connection afterwards.
\<close>

definition update_connection ::
  "SocketConnection \<Rightarrow> race \<Rightarrow> size_t \<times> size_t \<times> bool \<times> SocketConnection" where
  "update_connection socket rc =
     (case pullDownload socket (in_pullDownload rc) of (d, s1) \<Rightarrow>
      case pullUpload s1 (in_pullUpload rc) of (u, s2) \<Rightarrow>
        let s3 = receive_thread s2 (before_test rc);
            a = available s3;
            s4 = receive_thread s3 (in_test rc)
        in (d, u, a = 0 \<and> getState s4 = CLOSED, s4))"

text \<open>The loop, with the two totals it adds to.\<close>

fun update_connections ::
  "(nat \<times> SocketConnection) list \<Rightarrow> (nat \<Rightarrow> race) \<Rightarrow> size_t \<Rightarrow> size_t
     \<Rightarrow> (nat \<times> SocketConnection) list \<times> size_t \<times> size_t" where
  "update_connections [] races up down = ([], up, down)"
| "update_connections ((cid, socket) # rest) races up down =
     (case update_connection socket (races cid) of (d, u, erase, s) \<Rightarrow>
      case update_connections rest races (up + u) (down + d) of (kept, up', down') \<Rightarrow>
        if erase then (kept, up', down')
        else ((cid, s) # kept, up', down'))"

text \<open>The second loop.\<close>

fun update_servers :: "(nat \<times> SocketTcpSServer) list \<Rightarrow> (nat \<times> SocketTcpSServer) list" where
  "update_servers [] = []"
| "update_servers ((sid, server) # rest) =
     (if \<not> isOpen server then update_servers rest else (sid, server) # update_servers rest)"

definition Network_update :: "Network \<Rightarrow> (nat \<Rightarrow> race) \<Rightarrow> update_input \<Rightarrow> Network" where
  "Network_update n races i =
     (case update_connections (connections n) races (netTotalUpload n) (netTotalDownload n) of
        (conns, up, down) \<Rightarrow>
          n\<lparr>httpRequests := update (httpRequests n) i, connections := conns,
            servers := update_servers (servers n),
            netTotalUpload := up, netTotalDownload := down\<rparr>)"

section \<open>Notions used to state the properties\<close>

text \<open>
  The outcomes of a transport write that \<^verbatim>\<open>send\<close> retries (interrupted, would
  block) and those that end the call (a zero-byte write, any other error).
\<close>

definition transient_outcome :: "send_outcome \<Rightarrow> bool" where
  "transient_outcome r =
     (case r of
        SendAccepts k \<Rightarrow> False
      | SendError e \<Rightarrow> e = EINTR \<or> e = EAGAIN \<or> e = EWOULDBLOCK)"



text \<open>A connection after both counters were pulled, and the test of \<^verbatim>\<open>Network::update\<close>.\<close>

definition drained :: "SocketConnection \<Rightarrow> SocketConnection" where
  "drained c = c\<lparr>totalDownload := 0, totalUpload := 0\<rparr>"

definition removable :: "SocketConnection \<Rightarrow> bool" where
  "removable c = (available c = 0 \<and> getState c = CLOSED)"

text \<open>
  The callbacks held by the object, the requests it still has to serve (the one in the
  slot first), an \<^verbatim>\<open>update()\<close> in which cURL reports nothing, the bytes one
  \<^verbatim>\<open>curl_multi_perform\<close> writes, and what the start of the next request adds to the
  log at the end of an \<^verbatim>\<open>update()\<close>.
\<close>

definition slot :: "CurlRequests \<Rightarrow> callback option \<times> callback option" where
  "slot s = (onResponse s, onReject s)"

definition pending :: "CurlRequests \<Rightarrow> (callback option \<times> callback option) list" where
  "pending s = slot s # map callbacks (requests s)"

definition quiet_input :: "update_input \<Rightarrow> bool" where
  "quiet_input i = (curlm_ok (perform i) \<and> info_read i = None)"

text \<open>
  The requests that have not completed: the one in flight, if there is one (the test of
  the code: \<^verbatim>\<open>url\<close> is not empty), and the queued ones.  A sequence of calls is
  \<open>calm\<close> when cURL reports nothing (no failure, no message) to an \<^verbatim>\<open>update()\<close>
  that finds no request in flight.
\<close>

definition awaiting :: "CurlRequests \<Rightarrow> (callback option \<times> callback option) list" where
  "awaiting s = (if url s = [] then [] else [slot s]) @ map callbacks (requests s)"

fun calm :: "CurlRequests \<Rightarrow> call list \<Rightarrow> bool" where
  "calm s [] = True"
| "calm s (Submit sub p # cs) = calm (submit s (sub, p)) cs"
| "calm s (Update i # cs) = ((url s \<noteq> [] \<or> quiet_input i) \<and> calm (update s i) cs)"

definition written :: "perform_outcome \<Rightarrow> char list" where
  "written p = concat (chunks p)"

definition next_events :: "CurlRequests \<Rightarrow> update_input \<Rightarrow> callback_event list" where
  "next_events s i =
     (if requests s = [] \<or> curlm_ok (next_perform i) then []
      else call_onReject (reqOnReject (hd (requests s))) HTTP_BAD_GATEWAY)"

subsection \<open>Concrete states for the examples\<close>

text \<open>
  An accepted connection that received \<open>hello\<close> and was closed by the caller; an
  accepted connection whose queue holds exactly 1 MiB; a registry with two
  connections; an \<^verbatim>\<open>update()\<close> in which cURL has nothing to report.
\<close>

definition hello_closed :: SocketConnection where
  "hello_closed = close (snd (listenBody (startClient newConnection) (RecvData ''hello''))) False"

definition full_queue :: SocketConnection where
  "full_queue = (startClient newConnection)\<lparr>readBatch := replicate (2 ^ 20) CHR ''a''\<rparr>"

definition quiet_perform :: perform_outcome where
  "quiet_perform = \<lparr>chunks = [], curlm_ok = True\<rparr>"

definition quiet :: update_input where
  "quiet = \<lparr>perform = quiet_perform, info_read = None, next_perform = quiet_perform\<rparr>"

definition two_connections :: Network where
  "two_connections =
     \<lparr>httpRequests = newCurlRequests,
      connections = [(0, hello_closed), (1, close (startClient newConnection) False)],
      servers = [], nextConnection = 2, nextServer = 0,
      netTotalUpload = 0, netTotalDownload = 0\<rparr>"

text \<open>
  No other thread acts during an \<^verbatim>\<open>update()\<close>.  A registry with one accepted connection
  whose queue is empty; during the \<^verbatim>\<open>update()\<close>, between \<^verbatim>\<open>available()\<close> and
  \<^verbatim>\<open>getState()\<close>, the receive thread appends \<open>hello\<close> and then finds the peer closed.
\<close>

definition nobody :: "nat \<Rightarrow> race" where
  "nobody cid = undisturbed"

definition one_connection :: Network where
  "one_connection =
     \<lparr>httpRequests = newCurlRequests,
      connections = [(0, startClient newConnection)],
      servers = [], nextConnection = 1, nextServer = 0,
      netTotalUpload = 0, netTotalDownload = 0\<rparr>"

definition late_batch :: "nat \<Rightarrow> race" where
  "late_batch cid =
     \<lparr>in_pullDownload = [], in_pullUpload = 0, before_test = [],
      in_test = [RecvData ''hello'', RecvData []]\<rparr>"

text \<open>
  An accepted connection that received \<open>hello\<close>, alone in a registry; during the
  \<^verbatim>\<open>update()\<close>, inside \<^verbatim>\<open>pullDownload\<close>, the receive thread appends \<open>abc\<close>.
\<close>

definition received_hello :: SocketConnection where
  "received_hello = snd (listenBody (startClient newConnection) (RecvData ''hello''))"

definition hello_registered :: Network where
  "hello_registered =
     \<lparr>httpRequests = newCurlRequests,
      connections = [(0, received_hello)],
      servers = [], nextConnection = 1, nextServer = 0,
      netTotalUpload = 0, netTotalDownload = 0\<rparr>"

definition abc_in_pull :: "nat \<Rightarrow> race" where
  "abc_in_pull cid =
     \<lparr>in_pullDownload = [RecvData ''abc''], in_pullUpload = 0, before_test = [],
      in_test = []\<rparr>"

text \<open>
  A listener that accepted connection 1; an \<^verbatim>\<open>update()\<close> that reads a completion
  message; a queue with one request in flight; two further submissions.
\<close>

definition listening :: SocketTcpSServer where
  "listening = \<lparr>serverDescriptorOpen = True, clients = [1], isOpen = True,
      serverThread = True, port = 8080\<rparr>"

definition completed :: "int \<Rightarrow> char list list \<Rightarrow> update_input" where
  "completed code cs =
     \<lparr>perform = \<lparr>chunks = cs, curlm_ok = True\<rparr>,
      info_read = Some \<lparr>msg = CURLMSG_DONE, response_code = code,
                        request_size = None, header_size = None\<rparr>,
      next_perform = quiet_perform\<rparr>"

definition busy :: CurlRequests where
  "busy = get newCurlRequests ''http://h/a'' (Some 10) (Some 11) 0 quiet_perform"

definition two_more :: "(submission \<times> perform_outcome) list" where
  "two_more =
     [(Get ''http://h/b'' (Some 20) (Some 21) 0, quiet_perform),
      (Post ''http://h/c'' ''{}'' (Some 30) None 1024, quiet_perform)]"

text \<open>
  A queue whose active request has no reject callback; an \<^verbatim>\<open>update()\<close> in which
  data arrives and no message; an \<^verbatim>\<open>update()\<close> whose \<^verbatim>\<open>curl_multi_perform\<close> fails.
\<close>

definition post_c :: CurlRequests where
  "post_c = post newCurlRequests ''http://h/c'' ''{}'' (Some 30) None 1024 quiet_perform"

definition receiving :: "char list list \<Rightarrow> update_input" where
  "receiving cs =
     \<lparr>perform = \<lparr>chunks = cs, curlm_ok = True\<rparr>, info_read = None,
      next_perform = quiet_perform\<rparr>"

definition failing :: update_input where
  "failing =
     \<lparr>perform = \<lparr>chunks = [], curlm_ok = False\<rparr>, info_read = None,
      next_perform = quiet_perform\<rparr>"

text \<open>A session: one request in flight, two submissions between \<^verbatim>\<open>update()\<close> calls.\<close>

definition session :: "call list" where
  "session =
     [Submit (Get ''http://h/b'' (Some 20) (Some 21) 0) quiet_perform,
      Update (receiving [''x'']),
      Submit (Post ''http://h/c'' ''{}'' (Some 30) None 1024) quiet_perform,
      Update (completed 404 []),
      Update quiet,
      Update (completed 200 [''o'', ''k'']),
      Update (completed 404 [])]"

text \<open>
  Three requests from submission to completion: a GET that is answered \<open>hello\<close>, a POST
  without reject callback that ends with 404, a GET that ends with 404.  And a request
  in flight that is answered, after which \<^verbatim>\<open>curl_multi_perform\<close> fails.
\<close>

definition lifecycle :: "call list" where
  "lifecycle =
     [Submit (Get ''http://h/a'' (Some 10) (Some 11) 0) quiet_perform,
      Update (receiving [''he'']),
      Submit (Post ''http://h/c'' ''{}'' (Some 30) None 1024) quiet_perform,
      Submit (Get ''http://h/b'' (Some 20) (Some 21) 0) quiet_perform,
      Update (completed 200 [''l'', ''lo'']),
      Update (completed 404 []),
      Update (completed 404 []),
      Update quiet]"

definition answered_then_failing :: "call list" where
  "answered_then_failing = [Update (completed 200 [''ok'']), Update failing]"

section \<open>Properties of SocketConnection\<close>

lemma static_cast_int_small: "n < 2 ^ 31 \<Longrightarrow> static_cast_int n = int n"
  by (simp add: static_cast_int_def)

lemma MAX_INBUF_less: "MAX_INBUF < 2 ^ 31"
  by (simp add: MAX_INBUF_def)

subsection \<open>The loop of send\<close>

lemma sendLoop_done:
  "\<not> tot < len \<Longrightarrow>
     sendLoop c len tot rs
       = Some (static_cast_int tot, c\<lparr>totalUpload := totalUpload c + of_nat tot\<rparr>)"
  by (cases rs) simp_all

lemma sendLoop_error:
  "tot < len \<Longrightarrow>
     sendLoop c len tot (SendError e # rs)
       = (if e = EINTR \<or> e = EAGAIN \<or> e = EWOULDBLOCK then sendLoop c len tot rs
          else Some (- 1, close c False))"
  by (simp add: sendsocket_def SOCKET_ERROR_def)

lemma sendLoop_accepts:
  "tot < len \<Longrightarrow>
     sendLoop c len tot (SendAccepts k # rs)
       = (if min k (min (len - tot) INT_MAX) = 0 then Some (- 1, close c False)
          else sendLoop c len (tot + min k (min (len - tot) INT_MAX)) rs)"
  by (simp add: sendsocket_def SOCKET_ERROR_def Let_def min_def)

declare sendLoop.simps [simp del]






lemma sendLoop_readBatch:
  "sendLoop c len tot rs = Some (n, c') \<Longrightarrow> readBatch c' = readBatch c"
proof (induction rs arbitrary: tot)
  case Nil
  then show ?case by (auto simp: sendLoop.simps split: if_splits)
next
  case (Cons r rs)
  show ?case
  proof (cases "tot < len")
    case False
    with Cons.prems show ?thesis by (auto simp: sendLoop_done)
  next
    case True
    with Cons show ?thesis
      by (cases r) (auto simp: sendLoop_error sendLoop_accepts close_def split: if_splits)
  qed
qed

lemma send_readBatch: "send c len rs = Some (n, c') \<Longrightarrow> readBatch c' = readBatch c"
  by (auto simp: send_def sendLoop_readBatch split: if_splits)

subsection \<open>The bound of the inbound queue\<close>

lemma close_readBatch_length: "length (readBatch (close c d)) \<le> length (readBatch c)"
  by (simp add: close_def Let_def)

lemma listenBody_bound:
  "length (readBatch c) \<le> MAX_INBUF \<Longrightarrow> listenBody c r = (k, c')
     \<Longrightarrow> length (readBatch c') \<le> MAX_INBUF"
  by (cases r) (auto simp: listenBody_def recvsocket_def split: if_splits)

lemma recv_bound:
  "recv c len = Some (n, out, c') \<Longrightarrow> length (readBatch c') \<le> length (readBatch c)"
  by (auto simp: recv_def Let_def split: if_splits)

lemma receive_step_bound:
  "length (readBatch c) \<le> MAX_INBUF \<Longrightarrow> length (readBatch (receive_step c r)) \<le> MAX_INBUF"
proof (cases "state c = CONNECTED")
  case False
  then show "length (readBatch c) \<le> MAX_INBUF \<Longrightarrow> ?thesis" by (simp add: receive_step_def)
next
  case True
  assume b: "length (readBatch c) \<le> MAX_INBUF"
  obtain k c' where l: "listenBody c r = (k, c')" by (cases "listenBody c r")
  have "length (readBatch c') \<le> MAX_INBUF" using listenBody_bound [OF b l] .
  with True l show ?thesis by (cases k) (simp_all add: receive_step_def listenExit_def)
qed

lemma receive_thread_bound:
  "length (readBatch c) \<le> MAX_INBUF \<Longrightarrow> length (readBatch (receive_thread c rs)) \<le> MAX_INBUF"
  unfolding receive_thread_def
  by (induction rs arbitrary: c) (simp_all add: receive_step_bound)

lemma receive_thread_not_connected: "state c \<noteq> CONNECTED \<Longrightarrow> receive_thread c rs = c"
  unfolding receive_thread_def
  by (induction rs) (simp_all add: receive_step_def)

lemma reachable_bound: "c \<in> reachable \<Longrightarrow> length (readBatch c) \<le> MAX_INBUF"
proof (induction rule: reachable.induct)
  case (listen_continue c r c')
  then show ?case using listenBody_bound by blast
next
  case (listen_break c r c')
  then have "length (readBatch c') \<le> MAX_INBUF" using listenBody_bound by blast
  then show ?case by (simp add: listenExit_def)
next
  case (recv_op c len n out c')
  then show ?case using recv_bound by fastforce
next
  case (send_op c len rs n c')
  then show ?case using send_readBatch by fastforce
next
  case (close_op c discardAll)
  then show ?case using close_readBatch_length [of c discardAll] by simp
next
  case (pullDownload_op c rs)
  then show ?case using receive_thread_bound [of c rs] by (simp add: pullDownload_def Let_def)
qed (simp_all add: newConnection_def startClient_def connect_def connectSocket_begin_def
      connectSocket_finish_def listenExit_def pullUpload_def Let_def)

lemma reachable_small: "c \<in> reachable \<Longrightarrow> length (readBatch c) < 2 ^ 31"
  using reachable_bound [of c] MAX_INBUF_less by linarith

lemma recv_bounded:
  assumes "length (readBatch c) < 2 ^ 31"
  shows "recv c maxLen =
           (if state c \<noteq> CONNECTED \<and> readBatch c = [] then Some (- 1, [], c)
            else Some (int (min (length (readBatch c)) maxLen), take maxLen (readBatch c),
                       c\<lparr>readBatch := drop maxLen (readBatch c)\<rparr>))"
proof -
  have "min (length (readBatch c)) maxLen < 2 ^ 31" using assms by simp
  then have cast: "static_cast_int (min (length (readBatch c)) maxLen)
                     = int (min (length (readBatch c)) maxLen)"
    by (rule static_cast_int_small)
  have tk: "take (min (length (readBatch c)) maxLen) (readBatch c) = take maxLen (readBatch c)"
    by (simp add: min_def)
  have dr: "drop (min (length (readBatch c)) maxLen) (readBatch c) = drop maxLen (readBatch c)"
    by (simp add: min_def)
  show ?thesis
    unfolding recv_def Let_def cast using tk dr by simp
qed

lemma available_zero:
  "length (readBatch c) < 2 ^ 31 \<Longrightarrow> (available c = 0) = (readBatch c = [])"
  by (simp add: available_def static_cast_int_small)

subsection \<open>The examples\<close>

lemma hello_closed_eq:
  "hello_closed = \<lparr>descriptorOpen = False, totalUpload = 0, totalDownload = 5,
      state = CLOSED, thread = False, readBatch = ''hello''\<rparr>"
  by (simp add: hello_closed_def listenBody_def recvsocket_def startClient_def
        newConnection_def buffer_size_def MAX_INBUF_def close_def)

lemma hello_closed_reachable: "hello_closed \<in> reachable"
  unfolding hello_closed_def
  by (rule reachable.close_op,
      rule reachable.listen_continue [OF reachable.accepted, of "RecvData ''hello''"])
     (simp_all add: listenBody_def recvsocket_def startClient_def newConnection_def
        buffer_size_def MAX_INBUF_def)

lemma accepted_closed_eq:
  "close (startClient newConnection) False
     = \<lparr>descriptorOpen = False, totalUpload = 0, totalDownload = 0,
        state = CLOSED, thread = False, readBatch = []\<rparr>"
  by (simp add: startClient_def newConnection_def close_def)

subsection \<open>The registry loop of the facade\<close>

lemma update_connection_closed:
  "state c = CLOSED \<Longrightarrow>
     update_connection c rc = (totalDownload c, totalUpload c, removable c, drained c)"
  by (simp add: update_connection_def pullDownload_def pullUpload_def Let_def
        receive_thread_not_connected removable_def drained_def available_def getState_def)

lemma update_connection_undisturbed:
  "update_connection c undisturbed = (totalDownload c, totalUpload c, removable c, drained c)"
  by (simp add: update_connection_def pullDownload_def pullUpload_def Let_def undisturbed_def
        receive_thread_def removable_def drained_def available_def getState_def)

lemma update_connections_keys:
  "fst ` set (fst (update_connections cs races up down)) \<subseteq> fst ` set cs"
proof (induction cs arbitrary: up down)
  case Nil
  show ?case by simp
next
  case (Cons p cs)
  obtain cid c where p: "p = (cid, c)" by (cases p)
  obtain d u erase s where uc: "update_connection c (races cid) = (d, u, erase, s)"
    by (cases "update_connection c (races cid)")
  obtain kept up' down' where r: "update_connections cs races (up + u) (down + d) = (kept, up', down')"
    by (cases "update_connections cs races (up + u) (down + d)")
  have "fst ` set kept \<subseteq> fst ` set cs"
    using Cons.IH [of "up + u" "down + d"] by (simp add: r)
  then show ?case by (auto simp: p uc r)
qed

lemma map_of_update_connections:
  "distinct (map fst cs) \<Longrightarrow>
     map_of (fst (update_connections cs races up down)) k
       = (case map_of cs k of
            None \<Rightarrow> None
          | Some c \<Rightarrow>
              (case update_connection c (races k) of
                 (d, u, erase, s) \<Rightarrow> if erase then None else Some s))"
proof (induction cs arbitrary: up down)
  case Nil
  show ?case by simp
next
  case (Cons p cs)
  obtain cid c where p: "p = (cid, c)" by (cases p)
  obtain d u erase s where uc: "update_connection c (races cid) = (d, u, erase, s)"
    by (cases "update_connection c (races cid)")
  obtain kept up' down' where r: "update_connections cs races (up + u) (down + d) = (kept, up', down')"
    by (cases "update_connections cs races (up + u) (down + d)")
  have d: "distinct (map fst cs)" and fresh: "cid \<notin> fst ` set cs"
    using Cons.prems by (simp_all add: p)
  have ih: "map_of kept k
       = (case map_of cs k of
            None \<Rightarrow> None
          | Some c \<Rightarrow>
              (case update_connection c (races k) of
                 (d, u, erase, s) \<Rightarrow> if erase then None else Some s))"
    using Cons.IH [OF d, of "up + u" "down + d"] by (simp add: r)
  have "fst ` set kept \<subseteq> fst ` set cs"
    using update_connections_keys [of cs races "up + u" "down + d"] by (simp add: r)
  with fresh have none: "map_of kept cid = None" "map_of cs cid = None"
    by (auto simp: map_of_eq_None_iff)
  show ?case
  proof (cases "k = cid")
    case True
    with none uc show ?thesis by (simp add: p r)
  next
    case False
    with ih show ?thesis by (simp add: p uc r)
  qed
qed

lemma getConnection_update:
  assumes "distinct (map fst (connections n))"
  shows "getConnection (Network_update n races i) cid
           = (case getConnection n cid of
                None \<Rightarrow> None
              | Some c \<Rightarrow>
                  (case update_connection c (races cid) of
                     (d, u, erase, s) \<Rightarrow> if erase then None else Some s))"
proof -
  have "connections (Network_update n races i)
          = fst (update_connections (connections n) races (netTotalUpload n) (netTotalDownload n))"
    by (simp add: Network_update_def split: prod.splits)
  then show ?thesis
    by (simp add: getConnection_def map_of_update_connections [OF assms])
qed

lemma two_connections_eq:
  "connections two_connections
     = [(0, \<lparr>descriptorOpen = False, totalUpload = 0, totalDownload = 5,
             state = CLOSED, thread = False, readBatch = ''hello''\<rparr>),
        (1, \<lparr>descriptorOpen = False, totalUpload = 0, totalDownload = 0,
             state = CLOSED, thread = False, readBatch = []\<rparr>)]"
  by (simp add: two_connections_def hello_closed_eq accepted_closed_eq)

lemma close_state: "state (close c d) = CLOSED"
  by (simp add: close_def Let_def)

lemma close_discard: "readBatch (close c True) = []"
  by (simp add: close_def Let_def)

lemma closeSocket_twice:
  "closeSocket srv False conns = Some (srv', conns')
     \<Longrightarrow> \<not> isOpen srv' \<and> closeSocket srv' b conns' = Some (srv', conns')"
  by (auto simp: closeSocket_def split: if_splits)

lemma full_queue_facts:
  "state full_queue = CONNECTED" "length (readBatch full_queue) = 2 ^ 20"
  "recvsocket (RecvData ''b'') buffer_size = (1, ''b'', None)"
  by (simp_all add: full_queue_def startClient_def newConnection_def recvsocket_def buffer_size_def)

subsection \<open>The request queue\<close>

lemma foldl_write_callback: "foldl (\<lambda>b ptr. write_callback ptr b) buf cs = buf @ concat cs"
  by (induction cs arbitrary: buf) (simp_all add: write_callback_def)

lemma curl_multi_perform_eq: "curl_multi_perform p buf = (buf @ written p, curlm_ok p)"
  by (simp add: curl_multi_perform_def foldl_write_callback written_def)

lemma processRequest_active:
  "url s \<noteq> [] \<Longrightarrow> processRequest s r p = s\<lparr>requests := requests s @ [r]\<rparr>"
  by (simp add: processRequest_def)

lemma processRequest_start:
  "url s = [] \<Longrightarrow>
     processRequest s r p
       = (if curlm_ok p then
            s\<lparr>onResponse := reqOnResponse r, onReject := reqOnReject r, url := reqUrl r,
              buffer := written p\<rparr>
          else
            s\<lparr>onResponse := reqOnResponse r, onReject := reqOnReject r, url := [],
              buffer := written p,
              invoked := invoked s @ call_onReject (reqOnReject r) HTTP_BAD_GATEWAY\<rparr>)"
  by (simp add: processRequest_def curl_multi_perform_eq Let_def)

lemma submit_eq: "submit s (sub, p) = processRequest s (request_of sub) p"
  by (cases sub) (simp_all add: submit_def get_def post_def request_of_def)

lemma submit_all_active:
  "url s \<noteq> [] \<Longrightarrow>
     submit_all s sps = s\<lparr>requests := requests s @ map (\<lambda>sp. request_of (fst sp)) sps\<rparr>"
proof (induction sps arbitrary: s)
  case Nil
  show ?case by (simp add: submit_all_def)
next
  case (Cons sp sps)
  obtain sub p where sp: "sp = (sub, p)" by (cases sp)
  have "submit_all s (sp # sps) = submit_all (submit s sp) sps"
    by (simp add: submit_all_def)
  also have "submit s sp = s\<lparr>requests := requests s @ [request_of sub]\<rparr>"
    using Cons.prems by (simp add: sp submit_eq processRequest_active)
  also have "submit_all \<dots> sps
      = s\<lparr>requests := requests s @ map (\<lambda>sp. request_of (fst sp)) (sp # sps)\<rparr>"
    using Cons.prems by (subst Cons.IH) (simp_all add: sp)
  finally show ?case .
qed

lemma message_read_eq:
  "invoked (message_read s m)
     = invoked s @ (if response_code m = HTTP_OK then call_onResponse (onResponse s) (buffer s)
                    else call_onReject (onReject s) (response_code m))"
  "url (message_read s m) = []"
  "requests (message_read s m) = requests s"
  "onResponse (message_read s m) = onResponse s"
  "onReject (message_read s m) = onReject s"
  by (auto simp: message_read_def Let_def call_onResponse_def split: option.splits)

lemma update_failed:
  "\<not> curlm_ok (perform i) \<Longrightarrow>
     update s i = s\<lparr>buffer := buffer s @ written (perform i),
                    invoked := invoked s @ call_onReject (onReject s) HTTP_BAD_GATEWAY,
                    url := []\<rparr>"
  by (simp add: update_def curl_multi_perform_eq Let_def)

lemma update_quiet:
  "quiet_input i \<Longrightarrow> url s \<noteq> [] \<Longrightarrow> update s i = s\<lparr>buffer := buffer s @ written (perform i)\<rparr>"
  by (simp add: update_def curl_multi_perform_eq Let_def quiet_input_def)

lemma update_message:
  assumes "curlm_ok (perform i)" "info_read i = Some m"
  shows "update s i =
           (let s1 = message_read (s\<lparr>buffer := buffer s @ written (perform i)\<rparr>) m in
            if requests s = [] then s1
            else processRequest (s1\<lparr>requests := tl (requests s)\<rparr>) (hd (requests s)) (next_perform i))"
  using assms by (simp add: update_def curl_multi_perform_eq Let_def message_read_eq)

lemma update_message_invoked:
  assumes "curlm_ok (perform i)" "info_read i = Some m"
  shows "invoked (update s i)
           = invoked s
             @ (if response_code m = HTTP_OK
                then call_onResponse (onResponse s) (buffer s @ written (perform i))
                else call_onReject (onReject s) (response_code m))
             @ next_events s i"
  by (simp add: update_message [OF assms] Let_def processRequest_start message_read_eq
        next_events_def)

lemma updates_quiet:
  "list_all quiet_input qs \<Longrightarrow> url s \<noteq> [] \<Longrightarrow>
     updates s qs = s\<lparr>buffer := buffer s @ concat (map (\<lambda>i. written (perform i)) qs)\<rparr>"
proof (induction qs arbitrary: s)
  case Nil
  show ?case by (simp add: updates_def)
next
  case (Cons i qs)
  have "updates s (i # qs) = updates (update s i) qs" by (simp add: updates_def)
  also have "update s i = s\<lparr>buffer := buffer s @ written (perform i)\<rparr>"
    using Cons.prems by (simp add: update_quiet)
  also have "updates \<dots> qs
      = s\<lparr>buffer := buffer s @ concat (map (\<lambda>i. written (perform i)) (i # qs))\<rparr>"
    using Cons.prems by (subst Cons.IH) simp_all
  finally show ?case .
qed


lemma in_order_weaken: "in_order es rs \<Longrightarrow> in_order es (r # rs)"
  by (cases es) simp_all

lemma in_order_block:
  "list_all (\<lambda>e. belongs e r) es1 \<Longrightarrow> in_order es (r # rs) \<Longrightarrow> in_order (es1 @ es) (r # rs)"
  by (induction es1) simp_all

lemma belongs_call_onReject: "list_all (\<lambda>e. belongs e (f, g)) (call_onReject g code)"
  by (simp add: call_onReject_def belongs_def split: option.splits)

lemma belongs_call_onResponse: "list_all (\<lambda>e. belongs e (f, g)) (call_onResponse f body)"
  by (simp add: call_onResponse_def belongs_def split: option.splits)

text \<open>
  What one update() adds to the log: first events of the request in the slot, then
  events of the request it starts, if it starts one.
\<close>

lemma update_step:
  "\<exists>es1 es2. invoked (update s i) = invoked s @ es1 @ es2 \<and>
     list_all (\<lambda>e. belongs e (slot s)) es1 \<and>
     list_all (\<lambda>e. belongs e (slot (update s i))) es2 \<and>
     (pending (update s i) = pending s \<or> pending s = slot s # pending (update s i))"
proof (cases "curlm_ok (perform i)")
  case False
  have "invoked (update s i) = invoked s @ call_onReject (onReject s) HTTP_BAD_GATEWAY @ []"
    using False by (simp add: update_failed)
  moreover have "pending (update s i) = pending s"
    using False by (simp add: update_failed pending_def slot_def)
  ultimately show ?thesis
    using belongs_call_onReject [of "onResponse s" "onReject s" HTTP_BAD_GATEWAY]
    by (intro exI [of _ "call_onReject (onReject s) HTTP_BAD_GATEWAY"] exI [of _ "[]"])
       (simp add: slot_def)
next
  case True
  define s0 where "s0 = s\<lparr>buffer := buffer s @ written (perform i)\<rparr>"
  define s1 where "s1 = (case info_read i of None \<Rightarrow> s0 | Some m \<Rightarrow> message_read s0 m)"
  define es1 where "es1 = (case info_read i of None \<Rightarrow> []
     | Some m \<Rightarrow> if response_code m = HTTP_OK then call_onResponse (onResponse s) (buffer s0)
                  else call_onReject (onReject s) (response_code m))"
  have s1: "invoked s1 = invoked s @ es1" "requests s1 = requests s"
      "onResponse s1 = onResponse s" "onReject s1 = onReject s"
    by (simp_all add: s1_def s0_def es1_def message_read_eq split: option.splits)
  have b1: "list_all (\<lambda>e. belongs e (slot s)) es1"
    using belongs_call_onReject [of "onResponse s" "onReject s"]
          belongs_call_onResponse [of "onResponse s" "onReject s"]
    by (simp add: es1_def slot_def split: option.splits)
  have upd: "update s i =
       (if url s1 = [] \<and> requests s1 \<noteq> [] then
          processRequest (s1\<lparr>requests := tl (requests s1)\<rparr>) (hd (requests s1)) (next_perform i)
        else s1)"
    using True unfolding s1_def s0_def
    by (simp add: update_def curl_multi_perform_eq Let_def)
  show ?thesis
  proof (cases "url s1 = [] \<and> requests s1 \<noteq> []")
    case False
    with upd have "update s i = s1" by (simp only: if_False)
    then show ?thesis
      using s1 b1
      by (intro exI [of _ es1] exI [of _ "[]"]) (simp add: pending_def slot_def)
  next
    case start: True
    define r where "r = hd (requests s)"
    define es2 where "es2 = (if curlm_ok (next_perform i) then []
                              else call_onReject (reqOnReject r) HTTP_BAD_GATEWAY)"
    have rq: "requests s = r # tl (requests s)" using start s1 by (simp add: r_def)
    have u: "update s i = processRequest (s1\<lparr>requests := tl (requests s)\<rparr>) r (next_perform i)"
      using upd start s1 by (simp add: r_def)
    have inv: "invoked (update s i) = invoked s @ es1 @ es2"
      using start by (simp add: u processRequest_start s1 es2_def)
    have sl: "slot (update s i) = callbacks r" "requests (update s i) = tl (requests s)"
      using start by (simp_all add: u processRequest_start slot_def callbacks_def)
    have b2: "list_all (\<lambda>e. belongs e (slot (update s i))) es2"
      using belongs_call_onReject [of "reqOnResponse r" "reqOnReject r"]
      by (simp add: es2_def sl callbacks_def)
    have "pending s = slot s # pending (update s i)"
      using rq sl by (simp add: pending_def) (metis list.simps(9))
    with inv b1 b2 show ?thesis by blast
  qed
qed

lemma calls_in_order:
  "submitted_while_active s cs \<Longrightarrow>
     \<exists>es. invoked (calls s cs) = invoked s @ es \<and>
          in_order es (pending s @ map callbacks (submitted cs))"
proof (induction s cs rule: calls.induct)
  case (1 s)
  show ?case by simp
next
  case (2 s sub p cs)
  then have act: "url s \<noteq> []" and rest: "submitted_while_active (submit s (sub, p)) cs"
    by simp_all
  have sub: "submit s (sub, p) = s\<lparr>requests := requests s @ [request_of sub]\<rparr>"
    using act by (simp add: submit_eq processRequest_active)
  obtain es where "invoked (calls (submit s (sub, p)) cs) = invoked (submit s (sub, p)) @ es"
      "in_order es (pending (submit s (sub, p)) @ map callbacks (submitted cs))"
    using 2(1) [OF rest] by blast
  then show ?case
    by (intro exI [of _ es]) (simp add: sub pending_def slot_def)
next
  case (3 s i cs)
  then have rest: "submitted_while_active (update s i) cs" by simp
  obtain es1 es2 where st: "invoked (update s i) = invoked s @ es1 @ es2"
      "list_all (\<lambda>e. belongs e (slot s)) es1"
      "list_all (\<lambda>e. belongs e (slot (update s i))) es2"
      "pending (update s i) = pending s \<or> pending s = slot s # pending (update s i)"
    using update_step [of s i] by blast
  obtain es where ih: "invoked (calls (update s i) cs) = invoked (update s i) @ es"
      "in_order es (pending (update s i) @ map callbacks (submitted cs))"
    using 3(1) [OF rest] by blast
  let ?ts = "map callbacks (submitted cs)"
  have p': "pending (update s i) @ ?ts
      = slot (update s i) # (map callbacks (requests (update s i)) @ ?ts)"
    by (simp add: pending_def)
  have "in_order (es2 @ es) (pending (update s i) @ ?ts)"
    using st(3) ih(2) unfolding p' by (rule in_order_block)
  then have "in_order (es2 @ es) (pending s @ ?ts)"
    using st(4) in_order_weaken [of "es2 @ es" "pending (update s i) @ ?ts" "slot s"] by auto
  then have "in_order (es1 @ es2 @ es) (pending s @ ?ts)"
    using st(2) unfolding pending_def append_Cons by (rule in_order_block [rotated])
  moreover have "invoked (calls s (Update i # cs)) = invoked s @ es1 @ es2 @ es"
    using st(1) ih(1) by simp
  ultimately show ?case by auto
qed


lemma update_takes_one:
  "requests (update s i) = requests s \<or> requests (update s i) = tl (requests s)"
proof (cases "curlm_ok (perform i)")
  case False
  then show ?thesis by (simp add: update_failed)
next
  case True
  show ?thesis
  proof (cases "info_read i")
    case None
    then show ?thesis
      using True by (simp add: update_def curl_multi_perform_eq Let_def processRequest_start)
  next
    case (Some m)
    then show ?thesis
      using True by (simp add: update_message Let_def processRequest_start message_read_eq)
  qed
qed

lemma busy_eq:
  "busy = \<lparr>httpTotalUpload = 0, httpTotalDownload = 0, onResponse = Some 10, onReject = Some 11,
      buffer = [], url = ''http://h/a'', requests = [], invoked = []\<rparr>"
  by (simp add: busy_def get_def processRequest_def newCurlRequests_def curl_multi_perform_def
        quiet_perform_def)

lemma completed_simps:
  "curlm_ok (perform (completed code cs))" "chunks (perform (completed code cs)) = cs"
  "info_read (completed code cs) = Some \<lparr>msg = CURLMSG_DONE, response_code = code,
                        request_size = None, header_size = None\<rparr>"
  "next_perform (completed code cs) = quiet_perform"
  by (simp_all add: completed_def)

lemma quiet_perform_simps: "curlm_ok quiet_perform" "chunks quiet_perform = []"
  by (simp_all add: quiet_perform_def)

lemma busy_simps:
  "url busy \<noteq> []" "requests busy = []" "invoked busy = []"
  "onResponse busy = Some 10" "onReject busy = Some 11"
  by (simp_all add: busy_eq)

lemma two_more_requests:
  "map (\<lambda>sp. request_of (fst sp)) two_more
     = [request_of (Get ''http://h/b'' (Some 20) (Some 21) 0),
        request_of (Post ''http://h/c'' ''{}'' (Some 30) None 1024)]"
  by (simp add: two_more_def)

lemma post_c_eq:
  "post_c = \<lparr>httpTotalUpload = 0, httpTotalDownload = 0, onResponse = Some 30, onReject = None,
      buffer = [], url = ''http://h/c'', requests = [], invoked = []\<rparr>"
  by (simp add: post_c_def post_def processRequest_def newCurlRequests_def curl_multi_perform_def
        quiet_perform_def)

lemma receiving_simps:
  "curlm_ok (perform (receiving cs))" "chunks (perform (receiving cs)) = cs"
  "info_read (receiving cs) = None" "quiet_input (receiving cs)"
  by (simp_all add: receiving_def quiet_input_def)

lemma failing_simps: "\<not> curlm_ok (perform failing)"
  by (simp add: failing_def)

lemma busy_queue_eq:
  "submit_all busy two_more
     = \<lparr>httpTotalUpload = 0, httpTotalDownload = 0, onResponse = Some 10, onReject = Some 11,
        buffer = [], url = ''http://h/a'',
        requests = [request_of (Get ''http://h/b'' (Some 20) (Some 21) 0),
                    request_of (Post ''http://h/c'' ''{}'' (Some 30) None 1024)],
        invoked = []\<rparr>"
  using submit_all_active [OF busy_simps(1), of two_more]
  by (simp add: two_more_requests busy_eq)

lemma session_active: "submitted_while_active busy session"
  by (simp add: session_def busy_eq submit_def get_def post_def processRequest_def update_def
        curl_multi_perform_def write_callback_def receiving_def Let_def)

lemma session_submitted:
  "map callbacks (submitted session) = [(Some 20, Some 21), (Some 30, None)]"
  by (simp add: session_def request_of_def callbacks_def)

lemma session_run:
  "calls busy session
     = \<lparr>httpTotalUpload = 0, httpTotalDownload = 2, onResponse = Some 30, onReject = None,
        buffer = [], url = [], requests = [],
        invoked = [OnReject 11 404, OnResponse 20 ''ok'']\<rparr>"
  by (simp add: session_def busy_eq submit_def get_def post_def processRequest_def update_def
        message_read_def curl_multi_perform_def write_callback_def receiving_def
        completed_simps quiet_perform_simps quiet_def call_onReject_def HTTP_OK_def Let_def)

lemma busy_queue_simps:
  "onReject (submit_all busy two_more) = Some 11"
  "requests (submit_all busy two_more)
     = request_of (Get ''http://h/b'' (Some 20) (Some 21) 0)
       # [request_of (Post ''http://h/c'' ''{}'' (Some 30) None 1024)]"
  "invoked (submit_all busy two_more) = []"
  by (simp_all add: busy_queue_eq)

lemma after_404_eq:
  "update (submit_all busy two_more) (completed 404 [])
     = \<lparr>httpTotalUpload = 0, httpTotalDownload = 0, onResponse = Some 20, onReject = Some 21,
        buffer = [], url = ''http://h/b'',
        requests = [request_of (Post ''http://h/c'' ''{}'' (Some 30) None 1024)],
        invoked = [OnReject 11 404]\<rparr>"
  by (simp add: busy_queue_eq update_def message_read_def curl_multi_perform_def
        processRequest_def completed_simps quiet_perform_simps call_onReject_def HTTP_OK_def
        request_of_def Let_def)

subsection \<open>At most one callback for a request\<close>

lemma at_most_once_mset:
  "mset rs = mset rs' \<Longrightarrow> at_most_once es rs = at_most_once es rs'"
proof (induction es arbitrary: rs rs')
  case Nil
  show ?case by simp
next
  case (Cons e es)
  have st: "set rs = set rs'" using Cons.prems by (rule mset_eq_setD)
  have "at_most_once es (remove1 r rs) = at_most_once es (remove1 r rs')" for r
    using Cons.prems by (intro Cons.IH) simp
  with st show ?case by (simp add: list_ex_iff)
qed

lemma at_most_once_weaken: "at_most_once es rs \<Longrightarrow> at_most_once es (r # rs)"
proof (induction es arbitrary: rs)
  case Nil
  show ?case by simp
next
  case (Cons e es)
  then obtain q where q: "q \<in> set rs" "belongs e q" "at_most_once es (remove1 q rs)"
    by (auto simp: list_ex_iff)
  have "at_most_once es (remove1 q (r # rs))"
  proof (cases "q = r")
    case True
    have "at_most_once es (r # remove1 r rs)" using q(3) True by (intro Cons.IH) simp
    moreover have "mset (r # remove1 r rs) = mset rs" using q(1) True by simp
    ultimately have "at_most_once es rs" using at_most_once_mset by blast
    with True show ?thesis by simp
  next
    case False
    then show ?thesis using Cons.IH [OF q(3)] by simp
  qed
  with q show ?case by (auto simp: list_ex_iff)
qed

lemma at_most_once_one:
  "length es1 \<le> 1 \<Longrightarrow> list_all (\<lambda>e. belongs e r) es1 \<Longrightarrow> at_most_once es rs
     \<Longrightarrow> at_most_once (es1 @ es) (r # rs)"
proof (cases es1)
  case Nil
  then show "at_most_once es rs \<Longrightarrow> ?thesis" by (simp add: at_most_once_weaken)
next
  case (Cons e es')
  assume "length es1 \<le> 1" "list_all (\<lambda>e. belongs e r) es1" "at_most_once es rs"
  with Cons show ?thesis by simp
qed

lemma call_short:
  "length (call_onReject g code) \<le> 1" "length (call_onResponse f body) \<le> 1"
  by (simp_all add: call_onReject_def call_onResponse_def split: option.splits)

text \<open>What the start of a request adds to the log.\<close>

lemma start_step:
  assumes "url t = []" and "at_most_once es (awaiting (processRequest t r p) @ ts)"
  shows "\<exists>es2. invoked (processRequest t r p) = invoked t @ es2 \<and>
           at_most_once (es2 @ es) (callbacks r # map callbacks (requests t) @ ts)"
proof (cases "curlm_ok p")
  case True
  have inv: "invoked (processRequest t r p) = invoked t @ []"
    using assms(1) True by (simp add: processRequest_start)
  have "awaiting (processRequest t r p)
          = (if reqUrl r = [] then [] else [callbacks r]) @ map callbacks (requests t)"
    using assms(1) True by (simp add: processRequest_start awaiting_def slot_def callbacks_def)
  with assms(2) have "at_most_once es (callbacks r # map callbacks (requests t) @ ts)"
    by (cases "reqUrl r = []") (simp_all add: at_most_once_weaken del: at_most_once.simps)
  with inv show ?thesis by (intro exI [of _ "[]"]) simp
next
  case False
  let ?es2 = "call_onReject (reqOnReject r) HTTP_BAD_GATEWAY"
  have inv: "invoked (processRequest t r p) = invoked t @ ?es2"
    using assms(1) False by (simp add: processRequest_start)
  have "awaiting (processRequest t r p) = map callbacks (requests t)"
    using assms(1) False by (simp add: processRequest_start awaiting_def)
  with assms(2) have rest: "at_most_once es (map callbacks (requests t) @ ts)" by simp
  have "list_all (\<lambda>e. belongs e (callbacks r)) ?es2"
    using belongs_call_onReject [of "reqOnResponse r" "reqOnReject r"]
    by (simp add: callbacks_def)
  then have "at_most_once (?es2 @ es) (callbacks r # map callbacks (requests t) @ ts)"
    using call_short(1) rest by (intro at_most_once_one)
  with inv show ?thesis by blast
qed

text \<open>What one update() adds to the log when it is given nothing to report while idle.\<close>

lemma calm_step:
  assumes "url s \<noteq> [] \<or> quiet_input i" and "at_most_once es (awaiting (update s i) @ ts)"
  shows "\<exists>es'. invoked (update s i) = invoked s @ es' \<and> at_most_once (es' @ es) (awaiting s @ ts)"
proof (cases "curlm_ok (perform i)")
  case False
  with assms(1) have act: "url s \<noteq> []" by (auto simp: quiet_input_def)
  let ?es1 = "call_onReject (onReject s) HTTP_BAD_GATEWAY"
  have inv: "invoked (update s i) = invoked s @ ?es1"
    using False by (simp add: update_failed)
  have "awaiting (update s i) = map callbacks (requests s)"
    using False by (simp add: update_failed awaiting_def)
  with assms(2) have rest: "at_most_once es (map callbacks (requests s) @ ts)" by simp
  have "list_all (\<lambda>e. belongs e (slot s)) ?es1"
    using belongs_call_onReject [of "onResponse s" "onReject s"] by (simp add: slot_def)
  then have "at_most_once (?es1 @ es) (slot s # map callbacks (requests s) @ ts)"
    using call_short(1) rest by (intro at_most_once_one)
  with inv act show ?thesis by (intro exI [of _ ?es1]) (simp add: awaiting_def)
next
  case ok: True
  define s0 where "s0 = s\<lparr>buffer := buffer s @ written (perform i)\<rparr>"
  define s1 where "s1 = (case info_read i of None \<Rightarrow> s0 | Some m \<Rightarrow> message_read s0 m)"
  have upd: "update s i =
       (if url s1 = [] \<and> requests s1 \<noteq> [] then
          processRequest (s1\<lparr>requests := tl (requests s1)\<rparr>) (hd (requests s1)) (next_perform i)
        else s1)"
    using ok unfolding s1_def s0_def
    by (simp add: update_def curl_multi_perform_eq Let_def)
  have rq: "requests s1 = requests s" "onResponse s1 = onResponse s" "onReject s1 = onReject s"
    by (simp_all add: s1_def s0_def message_read_eq split: option.splits)
  text \<open>The start of the next request, if there is one, seen from \<open>s1\<close>.\<close>
  have next_start: "\<exists>es2. invoked (update s i) = invoked s1 @ es2 \<and>
           at_most_once (es2 @ es) (map callbacks (requests s) @ ts)"
    if idle: "url s1 = []"
  proof (cases "requests s1 = []")
    case True
    with upd have u: "update s i = s1" by simp
    have "awaiting s1 = []" using idle True by (simp add: awaiting_def)
    with assms(2) u rq True show ?thesis by (intro exI [of _ "[]"]) simp
  next
    case False
    define r where "r = hd (requests s)"
    define t where "t = s1\<lparr>requests := tl (requests s)\<rparr>"
    have rs: "requests s = r # tl (requests s)" using False rq by (simp add: r_def)
    have u: "update s i = processRequest t r (next_perform i)"
      using upd idle False rq by (simp add: r_def t_def)
    have t: "url t = []" "invoked t = invoked s1" "requests t = tl (requests s)"
      using idle by (simp_all add: t_def)
    obtain es2 where "invoked (processRequest t r (next_perform i)) = invoked t @ es2"
        "at_most_once (es2 @ es) (callbacks r # map callbacks (requests t) @ ts)"
      using start_step [OF t(1), of es r "next_perform i" ts] assms(2) u by auto
    moreover have "callbacks r # map callbacks (requests t) @ ts = map callbacks (requests s) @ ts"
      using rs t(3) by (metis append_Cons list.simps(9))
    ultimately show ?thesis using u t(2) by auto
  qed
  show ?thesis
  proof (cases "info_read i")
    case None
    then have s1: "s1 = s0" by (simp add: s1_def)
    show ?thesis
    proof (cases "url s = []")
      case False
      then have "update s i = s0" using upd s1 by (simp add: s0_def)
      then have "invoked (update s i) = invoked s @ []" "awaiting (update s i) = awaiting s"
        by (simp_all add: s0_def awaiting_def slot_def)
      with assms(2) show ?thesis by (intro exI [of _ "[]"]) simp
    next
      case True
      then have "url s1 = []" by (simp add: s1 s0_def)
      from next_start [OF this] obtain es2 where
        "invoked (update s i) = invoked s1 @ es2"
        "at_most_once (es2 @ es) (map callbacks (requests s) @ ts)" by blast
      moreover have "invoked s1 = invoked s" by (simp add: s1 s0_def)
      moreover have "awaiting s = map callbacks (requests s)" using True by (simp add: awaiting_def)
      ultimately show ?thesis by auto
    qed
  next
    case (Some m)
    with assms(1) have act: "url s \<noteq> []" by (auto simp: quiet_input_def)
    define es1 where "es1 = (if response_code m = HTTP_OK
        then call_onResponse (onResponse s) (buffer s0)
        else call_onReject (onReject s) (response_code m))"
    have s1: "s1 = message_read s0 m" using Some by (simp add: s1_def)
    have inv1: "invoked s1 = invoked s @ es1" "url s1 = []"
      by (simp_all add: s1 s0_def es1_def message_read_eq)
    have b1: "list_all (\<lambda>e. belongs e (slot s)) es1" "length es1 \<le> 1"
      using belongs_call_onReject [of "onResponse s" "onReject s"]
            belongs_call_onResponse [of "onResponse s" "onReject s"] call_short
      by (simp_all add: es1_def slot_def)
    from next_start [OF inv1(2)] obtain es2 where es2:
      "invoked (update s i) = invoked s1 @ es2"
      "at_most_once (es2 @ es) (map callbacks (requests s) @ ts)" by blast
    have "at_most_once (es1 @ es2 @ es) (slot s # map callbacks (requests s) @ ts)"
      using b1(2) b1(1) es2(2) by (rule at_most_once_one)
    moreover have "awaiting s = slot s # map callbacks (requests s)"
      using act by (simp add: awaiting_def)
    ultimately show ?thesis
      using es2(1) inv1(1) by (intro exI [of _ "es1 @ es2"]) simp
  qed
qed

lemma calls_at_most_once:
  "calm s cs \<Longrightarrow>
     \<exists>es. invoked (calls s cs) = invoked s @ es \<and>
          at_most_once es (awaiting s @ map callbacks (submitted cs))"
proof (induction s cs rule: calls.induct)
  case (1 s)
  show ?case by simp
next
  case (2 s sub p cs)
  then have rest: "calm (submit s (sub, p)) cs" by simp
  let ?r = "request_of sub"
  let ?ts = "map callbacks (submitted cs)"
  obtain es where ih: "invoked (calls (submit s (sub, p)) cs) = invoked (submit s (sub, p)) @ es"
      "at_most_once es (awaiting (submit s (sub, p)) @ ?ts)"
    using 2(1) [OF rest] by blast
  show ?case
  proof (cases "url s = []")
    case False
    then have sub: "submit s (sub, p) = s\<lparr>requests := requests s @ [?r]\<rparr>"
      by (simp add: submit_eq processRequest_active)
    from ih False show ?thesis
      by (intro exI [of _ es]) (simp add: sub awaiting_def slot_def)
  next
    case True
    have sub: "submit s (sub, p) = processRequest s ?r p" by (simp add: submit_eq)
    obtain es2 where es2: "invoked (processRequest s ?r p) = invoked s @ es2"
        "at_most_once (es2 @ es) (callbacks ?r # map callbacks (requests s) @ ?ts)"
      using start_step [OF True, of es ?r p ?ts] ih(2) sub by auto
    have "mset (callbacks ?r # map callbacks (requests s) @ ?ts)
            = mset (awaiting s @ map callbacks (submitted (Submit sub p # cs)))"
      using True by (simp add: awaiting_def)
    with es2(2) have "at_most_once (es2 @ es)
        (awaiting s @ map callbacks (submitted (Submit sub p # cs)))"
      using at_most_once_mset by blast
    with ih(1) sub es2(1) show ?thesis
      by (intro exI [of _ "es2 @ es"]) simp
  qed
next
  case (3 s i cs)
  then have ok: "url s \<noteq> [] \<or> quiet_input i" and rest: "calm (update s i) cs" by simp_all
  let ?ts = "map callbacks (submitted cs)"
  obtain es where ih: "invoked (calls (update s i) cs) = invoked (update s i) @ es"
      "at_most_once es (awaiting (update s i) @ ?ts)"
    using 3(1) [OF rest] by blast
  obtain es' where "invoked (update s i) = invoked s @ es'"
      "at_most_once (es' @ es) (awaiting s @ ?ts)"
    using calm_step [OF ok ih(2)] by blast
  with ih(1) show ?case by (intro exI [of _ "es' @ es"]) simp
qed

lemma newCurlRequests_simps:
  "url newCurlRequests = []" "requests newCurlRequests = []" "invoked newCurlRequests = []"
  by (simp_all add: newCurlRequests_def)

lemma lifecycle_calm: "calm newCurlRequests lifecycle"
  by (simp add: lifecycle_def newCurlRequests_def submit_def get_def post_def processRequest_def
        update_def message_read_def curl_multi_perform_def write_callback_def receiving_def
        completed_simps quiet_perform_simps quiet_def quiet_input_def call_onReject_def
        HTTP_OK_def Let_def)

lemma lifecycle_submitted:
  "map callbacks (submitted lifecycle) = [(Some 10, Some 11), (Some 30, None), (Some 20, Some 21)]"
  by (simp add: lifecycle_def request_of_def callbacks_def)

lemma lifecycle_run:
  "invoked (calls newCurlRequests lifecycle) = [OnResponse 10 ''hello'', OnReject 21 404]"
  by (simp add: lifecycle_def newCurlRequests_def submit_def get_def post_def processRequest_def
        update_def message_read_def curl_multi_perform_def write_callback_def receiving_def
        completed_simps quiet_perform_simps quiet_def call_onReject_def
        HTTP_OK_def Let_def)

section \<open>The claims\<close>

subsection \<open>C1: recv\<close>

text \<open>
  Claim C1, as stated, says that \<^verbatim>\<open>recv\<close> returns \<open>-1\<close> only when the queue is empty
  and the connection is \<^verbatim>\<open>CLOSED\<close>.  Counterexample to C1: an outbound connection as
  \<^verbatim>\<open>Network::connect\<close> registers it, before its thread has run (state \<^verbatim>\<open>INITIAL\<close>)
  and while its handshake is in progress (state \<^verbatim>\<open>CONNECTING\<close>), has an empty queue and
  returns \<open>-1\<close> although it is not \<^verbatim>\<open>CLOSED\<close>.
\<close>

theorem recv_no_data_before_connected:
  "recv (connect newConnection) 16 = Some (- 1, [], connect newConnection) \<and>
   readBatch (connect newConnection) = [] \<and> state (connect newConnection) = INITIAL \<and>
   recv (connectSocket_begin (connect newConnection)) 16
     = Some (- 1, [], connectSocket_begin (connect newConnection)) \<and>
   readBatch (connectSocket_begin (connect newConnection)) = [] \<and>
   state (connectSocket_begin (connect newConnection)) = CONNECTING"
  by (simp add: recv_def newConnection_def connectSocket_begin_def connect_def)

text \<open>
  Claim C1, amended: for every connection the program can hold, \<^verbatim>\<open>recv(maxLen)\<close>
  returns \<open>-1\<close> exactly when the state is not \<^verbatim>\<open>CONNECTED\<close> (that is \<^verbatim>\<open>INITIAL\<close>,
  \<^verbatim>\<open>CONNECTING\<close> or \<^verbatim>\<open>CLOSED\<close>) and the queue is empty.  In every other case, also
  after \<^verbatim>\<open>CLOSED\<close> while bytes are buffered, it copies the first \<open>min(queued, maxLen)\<close>
  bytes of the queue in FIFO order, removes them and returns their count; this is \<open>0\<close>
  for a \<^verbatim>\<open>CONNECTED\<close> connection with an empty queue.
\<close>

theorem recv_spec:
  assumes "c \<in> reachable"
  shows "recv c maxLen =
           (if state c \<noteq> CONNECTED \<and> readBatch c = [] then Some (- 1, [], c)
            else Some (int (min (length (readBatch c)) maxLen), take maxLen (readBatch c),
                       c\<lparr>readBatch := drop maxLen (readBatch c)\<rparr>)) \<and>
         ((\<exists>out c'. recv c maxLen = Some (- 1, out, c'))
            \<longleftrightarrow> state c \<noteq> CONNECTED \<and> readBatch c = []) \<and>
         take maxLen (readBatch c) @ drop maxLen (readBatch c) = readBatch c"
proof -
  have eq: "recv c maxLen =
           (if state c \<noteq> CONNECTED \<and> readBatch c = [] then Some (- 1, [], c)
            else Some (int (min (length (readBatch c)) maxLen), take maxLen (readBatch c),
                       c\<lparr>readBatch := drop maxLen (readBatch c)\<rparr>))"
    using assms by (intro recv_bounded reachable_small)
  then show ?thesis by auto
qed

text \<open>
  Witness for C1: the connection that received \<open>hello\<close> and was then closed is
  reachable and \<^verbatim>\<open>CLOSED\<close>, and \<^verbatim>\<open>recv(3)\<close> still hands out \<open>hel\<close>.
\<close>

theorem recv_spec_witness:
  "hello_closed \<in> reachable \<and> state hello_closed = CLOSED \<and>
   recv hello_closed 3 = Some (3, ''hel'', hello_closed\<lparr>readBatch := ''lo''\<rparr>)"
  using recv_spec [OF hello_closed_reachable, of 3] hello_closed_reachable
  by (simp add: hello_closed_eq)

subsection \<open>C5: the bound of the inbound queue\<close>

text \<open>
  Claim C5: for every connection the program can hold, the inbound queue never holds
  more than \<open>2^20\<close> bytes.  A received batch whose append would push the queue past
  \<open>2^20\<close> makes the receive loop leave with the state \<^verbatim>\<open>CLOSED\<close>; the queue and the
  download counter are what they were before the batch.  A batch that fits is appended
  and counted.
\<close>

theorem inbound_queue_bounded:
  "(c \<in> reachable \<longrightarrow> length (readBatch c) \<le> 2 ^ 20) \<and>
   (state q = CONNECTED \<and> recvsocket r buffer_size = (sz, bytes, err) \<and> 0 < sz \<and>
    2 ^ 20 < length (readBatch q) + nat sz \<longrightarrow>
      listenBody q r = (Break, q) \<and>
      listenLoop q (r # rs) = Some (q\<lparr>state := CLOSED, descriptorOpen := False\<rparr>)) \<and>
   (state q = CONNECTED \<and> recvsocket r buffer_size = (sz, bytes, err) \<and> 0 < sz \<and>
    length (readBatch q) + nat sz \<le> 2 ^ 20 \<longrightarrow>
      listenBody q r
        = (Continue, q\<lparr>readBatch := readBatch q @ bytes,
                        totalDownload := totalDownload q + of_int sz\<rparr>))"
proof (intro conjI impI)
  show "length (readBatch c) \<le> 2 ^ 20" if "c \<in> reachable"
    using reachable_bound [OF that] by (simp add: MAX_INBUF_def)
next
  assume h: "state q = CONNECTED \<and> recvsocket r buffer_size = (sz, bytes, err) \<and> 0 < sz \<and>
    2 ^ 20 < length (readBatch q) + nat sz"
  then show b: "listenBody q r = (Break, q)"
    by (simp add: listenBody_def MAX_INBUF_def)
  from h b show "listenLoop q (r # rs) = Some (q\<lparr>state := CLOSED, descriptorOpen := False\<rparr>)"
    by (simp add: listenExit_def)
next
  assume "state q = CONNECTED \<and> recvsocket r buffer_size = (sz, bytes, err) \<and> 0 < sz \<and>
    length (readBatch q) + nat sz \<le> 2 ^ 20"
  then show "listenBody q r
        = (Continue, q\<lparr>readBatch := readBatch q @ bytes,
                        totalDownload := totalDownload q + of_int sz\<rparr>)"
    by (simp add: listenBody_def MAX_INBUF_def)
qed

text \<open>
  Witness for C5: a reachable connection within the bound; a connection whose queue
  holds exactly \<open>2^20\<close> bytes receives one more byte and is closed with its queue and
  counter unchanged; an empty connection receives one byte and keeps and counts it.
\<close>

theorem inbound_queue_bounded_witness:
  "hello_closed \<in> reachable \<and> length (readBatch hello_closed) \<le> 2 ^ 20 \<and>
   state full_queue = CONNECTED \<and> length (readBatch full_queue) = 2 ^ 20 \<and>
   recvsocket (RecvData ''b'') buffer_size = (1, ''b'', None) \<and>
   listenLoop full_queue [RecvData ''b'', RecvData ''c'']
     = Some (full_queue\<lparr>state := CLOSED, descriptorOpen := False\<rparr>) \<and>
   listenBody (startClient newConnection) (RecvData ''b'')
     = (Continue, (startClient newConnection)\<lparr>readBatch := ''b'', totalDownload := 1\<rparr>)"
  using inbound_queue_bounded [of hello_closed full_queue "RecvData ''b''" 1 "''b''" None "[RecvData ''c'']"]
        inbound_queue_bounded [of hello_closed "startClient newConnection" "RecvData ''b''" 1 "''b''" None "[]"]
        hello_closed_reachable full_queue_facts
  by (simp add: startClient_def newConnection_def listenExit_def)

subsection \<open>C6: send\<close>




subsection \<open>C8: close\<close>

text \<open>
  What holds of \<^verbatim>\<open>close()\<close> as long as no thread of the connection or of the listener
  acts: \<^verbatim>\<open>close()\<close> ends in \<^verbatim>\<open>CLOSED\<close>, a second \<^verbatim>\<open>close()\<close> leaves the connection as
  the first left it (with \<^verbatim>\<open>discardAll\<close> it empties the queue and changes nothing
  else), and a \<^verbatim>\<open>closeSocket()\<close> that returns has cleared the open flag, after which
  any further call changes nothing.
\<close>

lemma close_twice:
  "state (close c d) = CLOSED \<and>
   close (close c d) d' = (if d' then (close c d)\<lparr>readBatch := []\<rparr> else close c d) \<and>
   (state c = CLOSED \<longrightarrow> close c False = c) \<and>
   (closeSocket srv False conns = Some (srv', conns') \<longrightarrow>
      \<not> isOpen srv' \<and> closeSocket srv' b conns' = Some (srv', conns'))"
  using closeSocket_twice [of srv conns srv' conns' b]
  by (auto simp: close_def Let_def)

text \<open>
  Claim C8 says that \<^verbatim>\<open>CLOSED\<close> is terminal for a connection and that \<^verbatim>\<open>close()\<close> of a
  connection or listener is safe.  The two stores of \<^verbatim>\<open>connectSocket\<close> do not test the
  state.  When the caller closes an outbound connection during its handshake,
  \<^verbatim>\<open>close()\<close> stores \<^verbatim>\<open>CLOSED\<close> and waits for the thread; the thread, whose OS
  \<^verbatim>\<open>connect\<close> has returned \<open>0\<close>, then stores \<^verbatim>\<open>CONNECTED\<close>: the state has left
  \<^verbatim>\<open>CLOSED\<close>.  In the same way a \<^verbatim>\<open>close()\<close> that comes before the thread has run is
  followed by \<^verbatim>\<open>CONNECTING\<close>.  And the \<^verbatim>\<open>close()\<close> that the accept thread of a listener
  calls itself when \<^verbatim>\<open>listen\<close> or \<^verbatim>\<open>accept\<close> fails does not return, because the thread
  joins itself, while the same call from another thread returns.
\<close>

theorem closed_not_terminal:
  "state (close (connectSocket_begin (connect newConnection)) False) = CLOSED \<and>
   state (connectSocket_finish (close (connectSocket_begin (connect newConnection)) False) 0)
     = CONNECTED \<and>
   state (close (connect newConnection) False) = CLOSED \<and>
   state (connectSocket_begin (close (connect newConnection) False)) = CONNECTING \<and>
   isOpen listening \<and>
   closeSocket listening True [(1, startClient newConnection)] = None \<and>
   closeSocket listening False [(1, startClient newConnection)]
     = Some (listening\<lparr>isOpen := False, clients := [], serverDescriptorOpen := False,
                        serverThread := False\<rparr>,
             [(1, close (startClient newConnection) False)])"
  by (simp add: close_def connectSocket_begin_def connectSocket_finish_def connect_def
        newConnection_def closeSocket_def listening_def close_client_def startClient_def)

subsection \<open>C10: close(discardAll = true) on a closed connection\<close>

text \<open>
  Claim C10: \<^verbatim>\<open>close(true)\<close> empties the inbound queue also when the connection is
  already \<^verbatim>\<open>CLOSED\<close> (where \<^verbatim>\<open>close(false)\<close> changes nothing): afterwards \<^verbatim>\<open>recv\<close>
  returns \<open>-1\<close>, \<^verbatim>\<open>available()\<close> is \<open>0\<close>, and the next \<^verbatim>\<open>Network::update()\<close> removes the
  connection from the registry, whatever the other threads do during that call.
\<close>

theorem close_discardAll_after_closed:
  "readBatch (close c True) = [] \<and> state (close c True) = CLOSED \<and>
   (state c = CLOSED \<longrightarrow> close c True = c\<lparr>readBatch := []\<rparr> \<and> close c False = c) \<and>
   recv (close c True) len = Some (- 1, [], close c True) \<and>
   available (close c True) = 0 \<and>
   (distinct (map fst (connections n)) \<and> getConnection n cid = Some c \<longrightarrow>
      getConnection
        (Network_update (n\<lparr>connections := AList.update cid (close c True) (connections n)\<rparr>)
           races i)
        cid = None)"
proof -
  have st: "state (close c True) = CLOSED" by (rule close_state)
  have rb: "readBatch (close c True) = []" by (rule close_discard)
  have a: "available (close c True) = 0" "getState (close c True) = CLOSED"
    by (simp_all add: st rb available_def getState_def static_cast_int_def)
  have rc: "recv (close c True) len = Some (- 1, [], close c True)"
    by (simp add: recv_def st rb)
  have cl: "close c True = c\<lparr>readBatch := []\<rparr> \<and> close c False = c" if "state c = CLOSED"
    using that by (simp add: close_def)
  have "getConnection
        (Network_update (n\<lparr>connections := AList.update cid (close c True) (connections n)\<rparr>)
           races i)
        cid = None"
    if "distinct (map fst (connections n))"
  proof -
    let ?n = "n\<lparr>connections := AList.update cid (close c True) (connections n)\<rparr>"
    have d: "distinct (map fst (connections ?n))"
      using that by (simp add: distinct_update)
    have "getConnection ?n cid = Some (close c True)"
      by (simp add: getConnection_def update_conv')
    with getConnection_update [OF d, of races i cid] a show ?thesis
      by (simp add: update_connection_closed [OF st] removable_def)
  qed
  with st rb a rc cl show ?thesis by blast
qed

text \<open>
  Witness for C10: the closed connection holding \<open>hello\<close> survives an
  \<^verbatim>\<open>update()\<close> as it is, and is removed by the \<^verbatim>\<open>update()\<close> that follows
  \<^verbatim>\<open>close(true)\<close>.
\<close>

theorem close_discardAll_after_closed_witness:
  "state hello_closed = CLOSED \<and> readBatch hello_closed = ''hello'' \<and>
   close hello_closed True = hello_closed\<lparr>readBatch := []\<rparr> \<and>
   close hello_closed False = hello_closed \<and>
   distinct (map fst (connections two_connections)) \<and>
   getConnection two_connections 0 = Some hello_closed \<and>
   getConnection (Network_update two_connections nobody quiet) 0
     = Some (hello_closed\<lparr>totalDownload := 0\<rparr>) \<and>
   getConnection
     (Network_update
        (two_connections\<lparr>connections :=
           AList.update 0 (close hello_closed True) (connections two_connections)\<rparr>)
        nobody quiet) 0
     = None"
  using close_discardAll_after_closed
          [where c = hello_closed and n = two_connections and cid = 0 and i = quiet
             and races = nobody]
  by (simp add: getConnection_def two_connections_eq hello_closed_eq Network_update_def
        update_connection_def nobody_def undisturbed_def receive_thread_def
        pullDownload_def pullUpload_def available_def getState_def static_cast_int_def Let_def)

subsection \<open>C4: removal from the registry\<close>

text \<open>
  What holds of an \<^verbatim>\<open>update()\<close> during which no thread touches the registered
  connections, in a registry with one entry per id: a connection is removed exactly
  when \<^verbatim>\<open>available() == 0\<close> and its state is \<^verbatim>\<open>CLOSED\<close>, every other one is kept with
  its counters pulled, and for a connection the program can hold \<^verbatim>\<open>available() == 0\<close>
  means that the queue is empty.
\<close>

lemma update_undisturbed:
  assumes "distinct (map fst (connections n))"
  shows "getConnection (Network_update n nobody i) cid
           = (case getConnection n cid of
                None \<Rightarrow> None
              | Some c \<Rightarrow>
                  if available c = 0 \<and> getState c = CLOSED then None
                  else Some (c\<lparr>totalDownload := 0, totalUpload := 0\<rparr>)) \<and>
         (c \<in> reachable \<longrightarrow> (available c = 0) = (readBatch c = []))"
  using getConnection_update [OF assms, of nobody i cid] available_zero [OF reachable_small, of c]
  by (simp add: nobody_def update_connection_undisturbed removable_def drained_def
        split: option.splits)

text \<open>
  Claim C4 says that a connection is removed only when it is \<^verbatim>\<open>CLOSED\<close> and its queue
  is empty at the same moment.  \<^verbatim>\<open>Network::update\<close> reads the two at two moments:
  \<^verbatim>\<open>available()\<close> under the mutex of the connection, then \<^verbatim>\<open>getState()\<close>, and the
  receive thread runs beside it.  A \<^verbatim>\<open>CONNECTED\<close> connection with an empty queue is
  registered; \<^verbatim>\<open>available()\<close> returns \<open>0\<close>; the receive thread appends \<open>hello\<close>, finds
  the peer closed and stores \<^verbatim>\<open>CLOSED\<close>; \<^verbatim>\<open>getState()\<close> returns \<^verbatim>\<open>CLOSED\<close>.  The entry
  is erased while the connection holds five unread bytes, which no \<^verbatim>\<open>recv\<close> through
  the id can reach any more.
\<close>

theorem update_erases_unread_bytes:
  "getConnection one_connection 0 = Some (startClient newConnection) \<and>
   state (startClient newConnection) = CONNECTED \<and>
   available (startClient newConnection) = 0 \<and>
   update_connection (startClient newConnection) (late_batch 0)
     = (0, 0, True,
        \<lparr>descriptorOpen = False, totalUpload = 0, totalDownload = 5,
         state = CLOSED, thread = True, readBatch = ''hello''\<rparr>) \<and>
   getConnection (Network_update one_connection late_batch quiet) 0 = None"
  by (simp add: getConnection_def one_connection_def Network_update_def update_connection_def
        late_batch_def receive_thread_def receive_step_def listenBody_def recvsocket_def
        listenExit_def buffer_size_def MAX_INBUF_def startClient_def newConnection_def
        pullDownload_def pullUpload_def available_def getState_def static_cast_int_def Let_def)

subsection \<open>C7: the byte counters\<close>

text \<open>
  What holds of a pull inside which no other thread adds to the counter: it returns the
  counter and leaves it at zero, so a pull repeated at once returns \<open>0\<close>.
\<close>

lemma pull_undisturbed:
  "pullUpload c 0 = (totalUpload c, c\<lparr>totalUpload := 0\<rparr>) \<and>
   pullDownload c [] = (totalDownload c, c\<lparr>totalDownload := 0\<rparr>) \<and>
   fst (pullUpload (snd (pullUpload c sent)) 0) = 0 \<and>
   fst (pullDownload (snd (pullDownload c rs)) []) = 0"
  by (simp add: pullUpload_def pullDownload_def receive_thread_def Let_def)

text \<open>
  Claim C7 says that every pull returns the bytes accumulated since the previous pull
  and that the facade adds exactly these to its totals.  \<^verbatim>\<open>pullDownload\<close> reads the
  counter and then stores zero, without the mutex under which the receive thread does
  \<^verbatim>\<open>totalDownload += size\<close>, and \<^verbatim>\<open>pullUpload\<close> does the same beside the
  \<^verbatim>\<open>totalUpload += total\<close> of \<^verbatim>\<open>send\<close>.  A connection has received \<open>hello\<close>;
  \<^verbatim>\<open>pullDownload\<close> reads \<open>5\<close>; the receive thread appends \<open>abc\<close> and makes the counter
  \<open>8\<close>; \<^verbatim>\<open>pullDownload\<close> stores \<open>0\<close> and returns \<open>5\<close>.  The next pull returns \<open>0\<close>: the
  three bytes are in the queue and are reported by no pull, and the total of the facade
  stays at \<open>5\<close> after eight bytes were received.  In the same way three bytes that a
  \<^verbatim>\<open>send\<close> counts inside a \<^verbatim>\<open>pullUpload\<close> are lost.
\<close>

theorem pull_loses_bytes:
  "state received_hello = CONNECTED \<and> readBatch received_hello = ''hello'' \<and>
   totalDownload received_hello = 5 \<and>
   pullDownload received_hello [RecvData ''abc'']
     = (5, received_hello\<lparr>readBatch := ''helloabc'', totalDownload := 0\<rparr>) \<and>
   fst (pullDownload (received_hello\<lparr>readBatch := ''helloabc'', totalDownload := 0\<rparr>) []) = 0 \<and>
   netTotalDownload (Network_update hello_registered abc_in_pull quiet) = 5 \<and>
   getConnection (Network_update hello_registered abc_in_pull quiet) 0
     = Some (received_hello\<lparr>readBatch := ''helloabc'', totalDownload := 0\<rparr>) \<and>
   netTotalDownload
     (Network_update (Network_update hello_registered abc_in_pull quiet) nobody quiet) = 5 \<and>
   send (startClient newConnection) 5 [SendAccepts 5]
     = Some (5, (startClient newConnection)\<lparr>totalUpload := 5\<rparr>) \<and>
   pullUpload ((startClient newConnection)\<lparr>totalUpload := 5\<rparr>) 3
     = (5, (startClient newConnection)\<lparr>totalUpload := 0\<rparr>)"
  by (simp add: received_hello_def hello_registered_def abc_in_pull_def nobody_def
        undisturbed_def getConnection_def Network_update_def update_connection_def
        receive_thread_def receive_step_def listenBody_def recvsocket_def listenExit_def
        buffer_size_def MAX_INBUF_def startClient_def newConnection_def
        pullDownload_def pullUpload_def available_def getState_def static_cast_int_def Let_def
        send_def sendLoop_accepts sendLoop_done INT_MAX_def)

subsection \<open>C2: FIFO service of HTTP requests\<close>

text \<open>
  Claim C2: take any sequence of \<^verbatim>\<open>get\<close>/\<^verbatim>\<open>post\<close> submissions and \<^verbatim>\<open>update()\<close> calls
  in which every submission is made while a request is active.  Whatever cURL
  reports, the callbacks are invoked in submission order: the new events of the log
  fall into consecutive blocks that follow the order active request, queued requests,
  submitted requests.  Submissions made while a request is active are appended to the
  queue in order and touch nothing else, so they start no transfer; an \<^verbatim>\<open>update()\<close> of an
  active queue in which cURL reports nothing starts nothing either, and every
  \<^verbatim>\<open>update()\<close> takes at most one request from the queue into the one slot.
\<close>

theorem http_fifo_order:
  assumes "submitted_while_active s cs"
  shows "take (length (invoked s)) (invoked (calls s cs)) = invoked s \<and>
         in_order (drop (length (invoked s)) (invoked (calls s cs)))
           ((onResponse s, onReject s)
            # map callbacks (requests s) @ map callbacks (submitted cs)) \<and>
         (url s \<noteq> [] \<longrightarrow>
            submit_all s sps
              = s\<lparr>requests := requests s @ map (\<lambda>sp. request_of (fst sp)) sps\<rparr>) \<and>
         (url s \<noteq> [] \<and> curlm_ok (perform i) \<and> info_read i = None \<longrightarrow>
            update s i = s\<lparr>buffer := buffer s @ concat (chunks (perform i))\<rparr>) \<and>
         (requests (update s i) = requests s \<or> requests (update s i) = tl (requests s))"
proof -
  obtain es where es: "invoked (calls s cs) = invoked s @ es"
      "in_order es (pending s @ map callbacks (submitted cs))"
    using calls_in_order [OF assms] by blast
  have q: "update s i = s\<lparr>buffer := buffer s @ concat (chunks (perform i))\<rparr>"
    if "url s \<noteq> [] \<and> curlm_ok (perform i) \<and> info_read i = None"
    using that update_quiet [of i s] by (simp add: quiet_input_def written_def)
  show ?thesis
    using es q update_takes_one [of s i] submit_all_active [of s sps]
    by (simp add: pending_def slot_def)
qed

text \<open>
  Witness for C2: one request in flight; a second is submitted, data arrives, a third
  is submitted; the first is rejected with 404, the second answers \<open>ok\<close>, the third
  is rejected and has no reject callback.  The log is in submission order, and the
  same two events in the other order would not be.
\<close>

theorem http_fifo_order_witness:
  "submitted_while_active busy session \<and>
   url busy \<noteq> [] \<and> invoked busy = [] \<and> requests busy = [] \<and>
   onResponse busy = Some 10 \<and> onReject busy = Some 11 \<and>
   map callbacks (submitted session) = [(Some 20, Some 21), (Some 30, None)] \<and>
   invoked (calls busy session) = [OnReject 11 404, OnResponse 20 ''ok''] \<and>
   in_order [OnReject 11 404, OnResponse 20 ''ok'']
     [(Some 10, Some 11), (Some 20, Some 21), (Some 30, None)] \<and>
   \<not> in_order [OnResponse 20 ''ok'', OnReject 11 404]
     [(Some 10, Some 11), (Some 20, Some 21), (Some 30, None)]"
proof -
  note t = http_fifo_order [OF session_active, where sps = two_more and i = quiet]
  have "in_order [OnReject 11 404, OnResponse 20 ''ok'']
     [(Some 10, Some 11), (Some 20, Some 21), (Some 30, None)]"
    using t by (simp add: session_run busy_simps session_submitted belongs_def)
  moreover have "\<not> in_order [OnResponse 20 ''ok'', OnReject 11 404]
     [(Some 10, Some 11), (Some 20, Some 21), (Some 30, None)]"
    by (simp add: belongs_def)
  ultimately show ?thesis
    by (simp add: session_run session_active session_submitted busy_simps)
qed

subsection \<open>C3: the callbacks of a completed request\<close>

text \<open>
  Claim C3, as stated, says that exactly one of the two callbacks fires for every
  completed request, that a failure without an HTTP status is reported as 502, and
  that the two callbacks never both fire for the same request.  Counterexample to C3:
  a POST submitted without a reject callback (the default of \<^verbatim>\<open>post\<close>) completes with
  status 404 and no callback is invoked at all; a transfer that ends with response
  code \<open>0\<close> (no HTTP response was received) while \<^verbatim>\<open>curl_multi_perform\<close> returns
  \<^verbatim>\<open>CURLM_OK\<close> invokes \<^verbatim>\<open>onReject(0)\<close>, not \<^verbatim>\<open>onReject(502)\<close>; and a request that is
  no longer in flight leaves its callbacks in the object.  So a request that was
  answered with 200 gets its \<^verbatim>\<open>onReject(502)\<close> after its \<^verbatim>\<open>onResponse\<close> from a later
  \<^verbatim>\<open>update()\<close> whose \<^verbatim>\<open>curl_multi_perform\<close> fails, and a request that was rejected
  with 502 at its start gets its \<^verbatim>\<open>onResponse\<close> after that from a later \<^verbatim>\<open>update()\<close>
  that reads a message with code 200.
\<close>

theorem not_exactly_one_callback:
  "url post_c = ''http://h/c'' \<and> onReject post_c = None \<and> invoked post_c = [] \<and>
   invoked (update post_c (completed 404 [])) = [] \<and> url (update post_c (completed 404 [])) = [] \<and>
   invoked (update busy (completed 0 [])) = [OnReject 11 0] \<and>
   invoked (update busy (completed 200 [''ok''])) = [OnResponse 10 ''ok''] \<and>
   url (update busy (completed 200 [''ok''])) = [] \<and>
   requests (update busy (completed 200 [''ok''])) = [] \<and>
   invoked (update (update busy (completed 200 [''ok''])) failing)
     = [OnResponse 10 ''ok'', OnReject 11 502] \<and>
   invoked (get newCurlRequests ''http://h/a'' (Some 10) (Some 11) 0 (perform failing))
     = [OnReject 11 502] \<and>
   url (get newCurlRequests ''http://h/a'' (Some 10) (Some 11) 0 (perform failing)) = [] \<and>
   invoked (update (get newCurlRequests ''http://h/a'' (Some 10) (Some 11) 0 (perform failing))
              (completed 200 [''ok'']))
     = [OnReject 11 502, OnResponse 10 ''ok'']"
  by (simp add: post_c_eq busy_eq update_def message_read_def curl_multi_perform_def
        completed_simps call_onReject_def HTTP_OK_def HTTP_BAD_GATEWAY_def failing_def
        write_callback_def get_def processRequest_def newCurlRequests_def Let_def)

text \<open>
  Claim C3, amended: a request is started with an empty buffer and its own two
  callbacks in the slot; while it is in flight the buffer grows by what cURL writes and
  no callback is invoked.  The \<^verbatim>\<open>update()\<close> that reads the completion message of the
  request in flight invokes at most one callback for it: with response code 200
  \<^verbatim>\<open>onResponse\<close>, if it is not null, on the whole accumulated body; with any other code
  \<open>c\<close> (also \<open>0\<close>) \<^verbatim>\<open>onReject(c)\<close>, if it is not null.  When \<^verbatim>\<open>curl_multi_perform\<close>
  itself fails, at the start of the request or in an \<^verbatim>\<open>update()\<close> while it is in
  flight, \<^verbatim>\<open>onReject(502)\<close> is invoked, if it is not null, and the request is no longer
  in flight.  (The only other event an \<^verbatim>\<open>update()\<close> can add is \<open>next_events\<close>: the 502
  of the next request when its start fails.)  In every calm sequence of submissions and
  \<^verbatim>\<open>update()\<close> calls, that is as long as cURL reports neither a failure nor a message to
  an \<^verbatim>\<open>update()\<close> that finds no request in flight, every request gets at most one
  callback invocation, so \<^verbatim>\<open>onResponse\<close> and \<^verbatim>\<open>onReject\<close> never both fire for the same
  request.  What the callbacks left in the object do outside such sequences is not part
  of the amended claim.
\<close>

theorem callbacks_on_completion:
  "(url s = [] \<and> curlm_ok p \<longrightarrow>
      processRequest s r p
        = s\<lparr>onResponse := reqOnResponse r, onReject := reqOnReject r, url := reqUrl r,
            buffer := concat (chunks p)\<rparr>) \<and>
   (url s = [] \<and> \<not> curlm_ok p \<longrightarrow>
      invoked (processRequest s r p) = invoked s @ call_onReject (reqOnReject r) 502 \<and>
      url (processRequest s r p) = []) \<and>
   (url s \<noteq> [] \<and> list_all quiet_input qs \<longrightarrow>
      updates s qs = s\<lparr>buffer := buffer s @ concat (map (\<lambda>i. concat (chunks (perform i))) qs)\<rparr>) \<and>
   (url s \<noteq> [] \<and> \<not> curlm_ok (perform i) \<longrightarrow>
      invoked (update s i) = invoked s @ call_onReject (onReject s) 502 \<and> url (update s i) = []) \<and>
   (url s \<noteq> [] \<and> curlm_ok (perform i) \<and> info_read i = Some m \<longrightarrow>
      invoked (update s i)
        = invoked s
          @ (if response_code m = 200
             then call_onResponse (onResponse s) (buffer s @ concat (chunks (perform i)))
             else call_onReject (onReject s) (response_code m))
          @ next_events s i) \<and>
   (url s \<noteq> [] \<and> curlm_ok (perform i) \<and> info_read i = None \<longrightarrow>
      invoked (update s i) = invoked s) \<and>
   call_onResponse f body = (case f of None \<Rightarrow> [] | Some g \<Rightarrow> [OnResponse g body]) \<and>
   call_onReject f code = (case f of None \<Rightarrow> [] | Some g \<Rightarrow> [OnReject g code]) \<and>
   (calm s cs \<longrightarrow>
      take (length (invoked s)) (invoked (calls s cs)) = invoked s \<and>
      at_most_once (drop (length (invoked s)) (invoked (calls s cs)))
        (awaiting s @ map callbacks (submitted cs)))"
proof (intro conjI impI)
  show "processRequest s r p
        = s\<lparr>onResponse := reqOnResponse r, onReject := reqOnReject r, url := reqUrl r,
            buffer := concat (chunks p)\<rparr>" if "url s = [] \<and> curlm_ok p"
    using that by (simp add: processRequest_start written_def)
  show "invoked (processRequest s r p) = invoked s @ call_onReject (reqOnReject r) 502"
    if "url s = [] \<and> \<not> curlm_ok p"
    using that by (simp add: processRequest_start HTTP_BAD_GATEWAY_def)
  show "url (processRequest s r p) = []" if "url s = [] \<and> \<not> curlm_ok p"
    using that by (simp add: processRequest_start)
  show "updates s qs = s\<lparr>buffer := buffer s @ concat (map (\<lambda>i. concat (chunks (perform i))) qs)\<rparr>"
    if "url s \<noteq> [] \<and> list_all quiet_input qs"
    using that updates_quiet [of qs s] by (simp add: written_def)
  show "invoked (update s i) = invoked s @ call_onReject (onReject s) 502"
    if "url s \<noteq> [] \<and> \<not> curlm_ok (perform i)"
    using that by (simp add: update_failed HTTP_BAD_GATEWAY_def)
  show "url (update s i) = []" if "url s \<noteq> [] \<and> \<not> curlm_ok (perform i)"
    using that by (simp add: update_failed)
  show "invoked (update s i)
        = invoked s
          @ (if response_code m = 200
             then call_onResponse (onResponse s) (buffer s @ concat (chunks (perform i)))
             else call_onReject (onReject s) (response_code m))
          @ next_events s i"
    if "url s \<noteq> [] \<and> curlm_ok (perform i) \<and> info_read i = Some m"
    using that update_message_invoked [of i m s] by (simp add: HTTP_OK_def written_def)
  show "invoked (update s i) = invoked s"
    if "url s \<noteq> [] \<and> curlm_ok (perform i) \<and> info_read i = None"
    using that update_quiet [of i s] by (simp add: quiet_input_def)
  show "call_onResponse f body = (case f of None \<Rightarrow> [] | Some g \<Rightarrow> [OnResponse g body])"
    by (simp add: call_onResponse_def)
  show "call_onReject f code = (case f of None \<Rightarrow> [] | Some g \<Rightarrow> [OnReject g code])"
    by (simp add: call_onReject_def)
  assume "calm s cs"
  then obtain es where es: "invoked (calls s cs) = invoked s @ es"
      "at_most_once es (awaiting s @ map callbacks (submitted cs))"
    using calls_at_most_once by blast
  show "take (length (invoked s)) (invoked (calls s cs)) = invoked s"
    by (simp add: es(1))
  show "at_most_once (drop (length (invoked s)) (invoked (calls s cs)))
        (awaiting s @ map callbacks (submitted cs))"
    using es by simp
qed

text \<open>
  Witness for C3: a GET is started, receives \<open>he\<close>, then \<open>l\<close> and \<open>lo\<close> with the
  completion message, and \<^verbatim>\<open>onResponse\<close> gets \<open>hello\<close>; status 404 gives
  \<^verbatim>\<open>onReject(404)\<close>; a failing \<^verbatim>\<open>curl_multi_perform\<close> gives \<^verbatim>\<open>onReject(502)\<close>.  Three
  requests run from submission to completion in a calm sequence: the first gets its
  \<^verbatim>\<open>onResponse\<close>, the second, which has no reject callback, gets nothing, the third
  gets its \<^verbatim>\<open>onReject(404)\<close>.  The log of the request that is answered and then
  rejected is not one of at most one callback, and its sequence is not calm.
\<close>

theorem callbacks_on_completion_witness:
  "url newCurlRequests = [] \<and>
   get newCurlRequests ''http://h/a'' (Some 10) (Some 11) 0 quiet_perform = busy \<and>
   processRequest newCurlRequests (request_of (Get ''http://h/a'' (Some 10) (Some 11) 0))
       quiet_perform
     = newCurlRequests\<lparr>onResponse := Some 10, onReject := Some 11, url := ''http://h/a'',
         buffer := []\<rparr> \<and>
   url busy = ''http://h/a'' \<and>
   updates busy [receiving [''he'']] = busy\<lparr>buffer := ''he''\<rparr> \<and>
   invoked (update (busy\<lparr>buffer := ''he''\<rparr>) (completed 200 [''l'', ''lo'']))
     = [OnResponse 10 ''hello''] \<and>
   invoked (update busy (completed 404 [])) = [OnReject 11 404] \<and>
   invoked (update busy failing) = [OnReject 11 502] \<and>
   calm newCurlRequests lifecycle \<and>
   map callbacks (submitted lifecycle) = [(Some 10, Some 11), (Some 30, None), (Some 20, Some 21)] \<and>
   invoked (calls newCurlRequests lifecycle) = [OnResponse 10 ''hello'', OnReject 21 404] \<and>
   at_most_once [OnResponse 10 ''hello'', OnReject 21 404]
     [(Some 10, Some 11), (Some 30, None), (Some 20, Some 21)] \<and>
   \<not> at_most_once [OnResponse 10 ''ok'', OnReject 11 502] [(Some 10, Some 11)] \<and>
   \<not> calm busy answered_then_failing"
proof -
  let ?m = "\<lambda>code. \<lparr>msg = CURLMSG_DONE, response_code = code,
                        request_size = None, header_size = None\<rparr>"
  note t1 = callbacks_on_completion [where s = busy and p = quiet_perform
      and r = "request_of (Get ''http://h/a'' (Some 10) (Some 11) 0)"
      and qs = "[receiving [''he'']]" and i = "completed 404 []" and m = "?m 404"
      and f = "Some 10" and body = "''hello''" and code = 404 and cs = "[]"]
  note t2 = callbacks_on_completion [where s = "busy\<lparr>buffer := ''he''\<rparr>" and p = quiet_perform
      and r = "request_of (Get ''http://h/a'' (Some 10) (Some 11) 0)"
      and qs = "[]" and i = "completed 200 [''l'', ''lo'']" and m = "?m 200"
      and f = "Some 10" and body = "''hello''" and code = 404 and cs = "[]"]
  note t3 = callbacks_on_completion [where s = busy and p = quiet_perform
      and r = "request_of (Get ''http://h/a'' (Some 10) (Some 11) 0)"
      and qs = "[]" and i = failing and m = "?m 404"
      and f = "Some 11" and body = "''hello''" and code = 502 and cs = "[]"]
  note t0 = callbacks_on_completion [where s = newCurlRequests and p = quiet_perform
      and r = "request_of (Get ''http://h/a'' (Some 10) (Some 11) 0)"
      and qs = "[]" and i = failing and m = "?m 404"
      and f = "Some 11" and body = "''hello''" and code = 502 and cs = lifecycle]
  have "processRequest newCurlRequests (request_of (Get ''http://h/a'' (Some 10) (Some 11) 0))
       quiet_perform
     = newCurlRequests\<lparr>onResponse := Some 10, onReject := Some 11, url := ''http://h/a'',
         buffer := []\<rparr>"
    using t0 by (simp add: newCurlRequests_def quiet_perform_simps request_of_def)
  moreover have "updates busy [receiving [''he'']] = busy\<lparr>buffer := ''he''\<rparr>"
    using t1 by (simp add: busy_simps receiving_simps busy_eq)
  moreover have "invoked (update (busy\<lparr>buffer := ''he''\<rparr>) (completed 200 [''l'', ''lo'']))
     = [OnResponse 10 ''hello'']"
    using t2 by (simp add: completed_simps busy_eq next_events_def call_onResponse_def)
  moreover have "invoked (update busy (completed 404 [])) = [OnReject 11 404]"
    using t1 by (simp add: completed_simps busy_simps next_events_def call_onReject_def)
  moreover have "invoked (update busy failing) = [OnReject 11 502]"
    using t3 by (simp add: failing_simps busy_simps call_onReject_def)
  moreover have "at_most_once (drop (length (invoked newCurlRequests))
        (invoked (calls newCurlRequests lifecycle)))
        (awaiting newCurlRequests @ map callbacks (submitted lifecycle))"
    using t0 lifecycle_calm by blast
  then have "at_most_once [OnResponse 10 ''hello'', OnReject 21 404]
     [(Some 10, Some 11), (Some 30, None), (Some 20, Some 21)]"
    by (simp add: lifecycle_run lifecycle_submitted awaiting_def newCurlRequests_simps)
  moreover have "\<not> at_most_once [OnResponse 10 ''ok'', OnReject 11 502] [(Some 10, Some 11)]"
    by (simp add: belongs_def)
  moreover have "\<not> calm busy answered_then_failing"
    by (simp add: answered_then_failing_def busy_eq update_def message_read_def
          curl_multi_perform_def completed_simps quiet_input_def failing_def HTTP_OK_def Let_def)
  moreover have "url newCurlRequests = []"
    by (simp add: newCurlRequests_def)
  moreover have "get newCurlRequests ''http://h/a'' (Some 10) (Some 11) 0 quiet_perform = busy"
    by (simp add: busy_def)
  moreover have "url busy = ''http://h/a''"
    by (simp add: busy_eq)
  ultimately show ?thesis
    using lifecycle_calm lifecycle_submitted lifecycle_run by blast
qed

subsection \<open>C9: status 404 with a request queued\<close>

text \<open>
  Claim C9, as stated, says that after \<^verbatim>\<open>onReject(404)\<close> has fired the next queued
  request starts on the following \<^verbatim>\<open>update()\<close> call.  Counterexample to C9: with one
  request in flight and two queued, the single \<^verbatim>\<open>update()\<close> that reads the 404 invokes
  \<^verbatim>\<open>onReject(404)\<close> and has already started the next request when it returns (its URL
  and callbacks are in the slot, the queue is one shorter); the following \<^verbatim>\<open>update()\<close>
  call, with nothing to report, starts nothing and changes nothing.
\<close>

theorem next_request_starts_in_same_update:
  "onReject (submit_all busy two_more) = Some 11 \<and>
   url (submit_all busy two_more) = ''http://h/a'' \<and>
   map reqUrl (requests (submit_all busy two_more)) = [''http://h/b'', ''http://h/c''] \<and>
   invoked (update (submit_all busy two_more) (completed 404 [])) = [OnReject 11 404] \<and>
   url (update (submit_all busy two_more) (completed 404 [])) = ''http://h/b'' \<and>
   map reqUrl (requests (update (submit_all busy two_more) (completed 404 []))) = [''http://h/c''] \<and>
   update (update (submit_all busy two_more) (completed 404 [])) quiet
     = update (submit_all busy two_more) (completed 404 [])"
  by (simp add: after_404_eq) (simp add: busy_queue_eq update_def curl_multi_perform_def quiet_def
        quiet_perform_simps request_of_def Let_def)

text \<open>
  Claim C9, amended: when the active request has a reject callback and another request
  is queued, the \<^verbatim>\<open>update()\<close> call that reads the completion with status 404 invokes
  \<^verbatim>\<open>onReject(404)\<close> and no \<^verbatim>\<open>onResponse\<close>, and starts the next queued request in that
  same call: it is taken from the queue, its callbacks and URL are in the slot and its
  buffer holds what its first \<^verbatim>\<open>curl_multi_perform\<close> wrote (if that call fails, the
  started request is rejected with 502 at once).  The following \<^verbatim>\<open>update()\<close> call finds
  the started request in flight and only adds what cURL writes to its buffer.
\<close>

theorem reject_404_then_next:
  assumes "onReject s = Some rej" and "requests s = r # rest"
    and "curlm_ok (perform i)" and "info_read i = Some m" and "response_code m = 404"
  shows "invoked (update s i)
           = invoked s @ [OnReject rej 404]
             @ (if curlm_ok (next_perform i) then []
                else call_onReject (reqOnReject r) HTTP_BAD_GATEWAY) \<and>
         requests (update s i) = rest \<and>
         onResponse (update s i) = reqOnResponse r \<and>
         onReject (update s i) = reqOnReject r \<and>
         url (update s i) = (if curlm_ok (next_perform i) then reqUrl r else []) \<and>
         buffer (update s i) = concat (chunks (next_perform i)) \<and>
         (curlm_ok (next_perform i) \<and> reqUrl r \<noteq> [] \<and>
          curlm_ok (perform j) \<and> info_read j = None \<longrightarrow>
            update (update s i) j
              = (update s i)\<lparr>buffer := buffer (update s i) @ concat (chunks (perform j))\<rparr>)"
proof -
  have a: "invoked (update s i)
           = invoked s @ [OnReject rej 404]
             @ (if curlm_ok (next_perform i) then []
                else call_onReject (reqOnReject r) HTTP_BAD_GATEWAY) \<and>
         requests (update s i) = rest \<and>
         onResponse (update s i) = reqOnResponse r \<and>
         onReject (update s i) = reqOnReject r \<and>
         url (update s i) = (if curlm_ok (next_perform i) then reqUrl r else []) \<and>
         buffer (update s i) = concat (chunks (next_perform i))"
    using assms
    by (simp add: update_message [OF assms(3,4)] Let_def message_read_eq message_read_def
          processRequest_start call_onReject_def HTTP_OK_def written_def)
  have "update (update s i) j
              = (update s i)\<lparr>buffer := buffer (update s i) @ concat (chunks (perform j))\<rparr>"
    if "curlm_ok (next_perform i) \<and> reqUrl r \<noteq> [] \<and> curlm_ok (perform j) \<and> info_read j = None"
  proof -
    have "url (update s i) \<noteq> []" using a that by simp
    moreover have "quiet_input j" using that by (simp add: quiet_input_def)
    ultimately show ?thesis
      using update_quiet [of j "update s i"] by (simp add: written_def)
  qed
  with a show ?thesis by blast
qed

text \<open>
  Witness for C9: the queue with one request in flight and two behind it; after the
  \<^verbatim>\<open>update()\<close> that reads the 404 the log holds \<^verbatim>\<open>onReject(404)\<close> alone, the second
  request is the active one, and the following \<^verbatim>\<open>update()\<close> receives its first byte.
\<close>

theorem reject_404_then_next_witness:
  "onReject (submit_all busy two_more) = Some 11 \<and>
   requests (submit_all busy two_more)
     = [request_of (Get ''http://h/b'' (Some 20) (Some 21) 0),
        request_of (Post ''http://h/c'' ''{}'' (Some 30) None 1024)] \<and>
   invoked (update (submit_all busy two_more) (completed 404 [])) = [OnReject 11 404] \<and>
   requests (update (submit_all busy two_more) (completed 404 []))
     = [request_of (Post ''http://h/c'' ''{}'' (Some 30) None 1024)] \<and>
   url (update (submit_all busy two_more) (completed 404 [])) = ''http://h/b'' \<and>
   onResponse (update (submit_all busy two_more) (completed 404 [])) = Some 20 \<and>
   onReject (update (submit_all busy two_more) (completed 404 [])) = Some 21 \<and>
   buffer (update (update (submit_all busy two_more) (completed 404 [])) (receiving [''x''])) = ''x''"
proof -
  have c: "curlm_ok (perform (completed 404 []))"
    "info_read (completed 404 []) = Some \<lparr>msg = CURLMSG_DONE, response_code = 404,
                        request_size = None, header_size = None\<rparr>"
    "response_code \<lparr>msg = CURLMSG_DONE, response_code = 404,
                        request_size = None, header_size = None\<rparr> = 404"
    by (simp_all add: completed_simps)
  from reject_404_then_next [OF busy_queue_simps(1,2) c, where j = "receiving [''x'']"]
    busy_queue_simps
  show ?thesis
    by (simp add: completed_simps quiet_perform_simps receiving_simps request_of_def)
qed

end
